theory Spec2Isabelle
  imports Complex_Main "HOL-Library.Log_Nat" "HOL-Library.Multiset" "HOL-Library.Sublist"
begin

section \<open>Python values shared by the modules\<close>

text \<open>
  Exceptions are values.  Every \<open>raise\<close> of the sources, and every exception a library
  call can throw, is a branch \<open>Inl e\<close> of a result of type \<open>error + 'a\<close>.  The
  \<open>ValueError\<close> of the capacity check carries its message.  \<open>LibraryError\<close> stands for
  whatever an external library (numpy, scipy, Qiskit) raises on its own.
\<close>

datatype error =
    KeyError
  | IndexError
  | ZeroDivisionError
  | OverflowError
  | AttributeError
  | TypeError
  | ValueError string
  | MemoryError
  | LibraryError

text \<open>Python floats are read as real numbers, Python ints as \<open>int\<close>.\<close>

text \<open>\<open>str(n)\<close> for an integer, as an f-string prints it.\<close>

fun str_nat :: "nat \<Rightarrow> string" where
  "str_nat n =
     (if n < 10 then [''0123456789'' ! n]
      else str_nat (n div 10) @ [''0123456789'' ! (n mod 10)])"

declare str_nat.simps [simp del]

definition str_int :: "int \<Rightarrow> string" where
  "str_int i = (if i < 0 then CHR ''-'' # str_nat (nat (- i)) else str_nat (nat i))"

text \<open>\<open>range(k)\<close> for a Python int: empty when \<open>k \<le> 0\<close>.\<close>

definition py_range :: "int \<Rightarrow> nat list" where
  "py_range k = [0..<nat k]"

text \<open>The slice \<open>xs[:k]\<close>: a negative \<open>k\<close> counts from the end.\<close>

definition py_take :: "int \<Rightarrow> 'a list \<Rightarrow> 'a list" where
  "py_take k xs =
     (if k < 0 then take (nat (int (length xs) + k)) xs else take (nat k) xs)"

text \<open>
  \<open>int(np.ceil(np.log2(n)))\<close> and \<open>int(np.log2(n))\<close> for an integer \<open>n \<ge> 1\<close>, computed
  on integers.  The lemmas \<open>ceil_log2_real\<close> and \<open>floor_log2_real\<close> below show that they
  are the ceiling and the floor of the real logarithm; the rounding of the float
  \<open>log2\<close> is not modelled.  For \<open>n = 0\<close> numpy yields \<open>-inf\<close> and \<open>int\<close> raises
  \<open>OverflowError\<close>, which the callers of these functions model.
\<close>

fun ceil_log2 :: "nat \<Rightarrow> nat" where
  "ceil_log2 n = (if n \<le> 1 then 0 else Suc (ceil_log2 ((n + 1) div 2)))"

declare ceil_log2.simps [simp del]

fun floor_log2 :: "nat \<Rightarrow> nat" where
  "floor_log2 n = (if n \<le> 1 then 0 else Suc (floor_log2 (n div 2)))"

declare floor_log2.simps [simp del]

text \<open>Sequencing: the second step runs only when the first did not raise.\<close>

definition and_then :: "error + 'a \<Rightarrow> ('a \<Rightarrow> error + 'b) \<Rightarrow> error + 'b" where
  "and_then m f = (case m of Inl e \<Rightarrow> Inl e | Inr x \<Rightarrow> f x)"

text \<open>\<open>d['key']\<close> on a dictionary whose key may be absent.\<close>

definition subscript :: "'a option \<Rightarrow> error + 'a" where
  "subscript v = (case v of None \<Rightarrow> Inl KeyError | Some x \<Rightarrow> Inr x)"

text \<open>
  The argument \<open>time\<close> is a Python float, a Python int or a numpy float, each with a
  finite value.  A float result is finite, infinite or not a number.
\<close>

datatype py_number = PyFloat real | PyInt int | NumpyFloat real

datatype py_float = Finite real | PosInf | NegInf | NaN



section \<open>qfea_core/classical_utils/hamiltonian_prep.py\<close>

text \<open>
  A matrix argument is a dense array or a scipy sparse matrix; both carry their rows
  here and differ in what \<open>issparse\<close> answers.  Entries are reals.
\<close>

type_synonym rmatrix = "real list list"

datatype py_matrix = NDArray rmatrix | CSRMatrix rmatrix

fun issparse :: "py_matrix \<Rightarrow> bool" where
  "issparse (NDArray A) = False"
| "issparse (CSRMatrix A) = True"

fun toarray :: "py_matrix \<Rightarrow> rmatrix" where
  "toarray (NDArray A) = A"
| "toarray (CSRMatrix A) = A"

text \<open>The slice \<open>A[:r, :r]\<close>.\<close>

definition leading_block :: "nat \<Rightarrow> rmatrix \<Rightarrow> rmatrix" where
  "leading_block r A = map (take r) (take r A)"

text \<open>\<open>A @ B\<close>; numpy raises when the shapes do not fit.\<close>

definition matmul :: "rmatrix \<Rightarrow> rmatrix \<Rightarrow> error + rmatrix" where
  "matmul A B =
     (if \<forall>row \<in> set A. length row = length B then
        Inr (map (\<lambda>row. map (\<lambda>j. sum_list (map (\<lambda>k. row ! k * B ! k ! j) [0..<length B]))
                          [0..<(case B of [] \<Rightarrow> 0 | b # _ \<Rightarrow> length b)]) A)
      else Inl LibraryError)"

text \<open>\<open>np.diag(values)\<close>\<close>

definition np_diag :: "real list \<Rightarrow> rmatrix" where
  "np_diag vs = map (\<lambda>i. map (\<lambda>j. if i = j then vs ! i else 0) [0..<length vs]) [0..<length vs]"

text \<open>
  The solvers of numpy and scipy are parameters of the model.  Each returns or raises;
  of an eigen-decomposition only the eigenvalues are kept, the eigenvectors that the
  source slices alongside are not modelled.
\<close>

record linalg =
  eigsh :: "rmatrix \<Rightarrow> int \<Rightarrow> rmatrix \<Rightarrow> error + real list"
  linalg_solve :: "rmatrix \<Rightarrow> rmatrix \<Rightarrow> error + rmatrix"
  linalg_inv :: "rmatrix \<Rightarrow> error + rmatrix"
  linalg_eigh :: "rmatrix \<Rightarrow> error + real list"

text \<open>
  The dictionary \<open>compute_H\<close> returns, without the key \<open>eigenvectors\<close>; the field
  \<open>hamiltonian\<close> is the key \<open>H\<close>.
\<close>

record compute_H_result =
  hamiltonian :: py_matrix
  eigenvalues :: "real list"
  num_dofs :: nat
  num_modes :: nat

text \<open>
  The branches that solve the eigenproblem for \<open>k\<close> modes: the sparse solver with its
  fallback to a dense leading block of side at most 20, the dense solver up to 1000
  degrees of freedom, and the dense leading block of side at most 100 beyond.
\<close>

definition solve_eigenproblem :: "linalg \<Rightarrow> py_matrix \<Rightarrow> py_matrix \<Rightarrow> nat \<Rightarrow> int \<Rightarrow> error + real list" where
  "solve_eigenproblem la K M n k =
     (if issparse K \<and> issparse M then
        (case eigsh la (toarray K) k (toarray M) of
           Inr vs \<Rightarrow> Inr vs
         | Inl e \<Rightarrow>
             (let n_reduced = min 20 n;
                  K_dense = leading_block n_reduced (toarray K);
                  M_dense = leading_block n_reduced (toarray M)
              in and_then (linalg_solve la M_dense K_dense) (\<lambda>A.
                 and_then (linalg_eigh la A) (\<lambda>vs. Inr (py_take k vs)))))
      else if n \<le> 1000 then
        and_then (linalg_inv la (toarray M)) (\<lambda>M_inv.
        and_then (matmul M_inv (toarray K)) (\<lambda>A.
        and_then (linalg_eigh la A) (\<lambda>vs. Inr (py_take k vs))))
      else
        (let n_reduced = min 100 n;
             K_reduced = leading_block n_reduced (toarray K);
             M_reduced = leading_block n_reduced (toarray M)
         in and_then (linalg_inv la M_reduced) (\<lambda>M_inv.
            and_then (matmul M_inv K_reduced) (\<lambda>A.
            and_then (linalg_eigh la A) (\<lambda>vs. Inr (py_take k vs))))))"

text \<open>The Hamiltonian for the two methods; any other method raises \<open>ValueError\<close>.\<close>

definition build_H :: "string \<Rightarrow> real list \<Rightarrow> error + rmatrix" where
  "build_H method vs =
     (if method = ''standard'' then Inr (np_diag vs)
      else if method = ''normalized'' then
        (let eig_min = Min (set vs); eig_max = Max (set vs);
             normalized_eigs =
               (if eig_max - eig_min > 1 / 10 ^ 10
                then map (\<lambda>v. (v - eig_min) / (eig_max - eig_min)) vs else vs)
         in Inr (np_diag normalized_eigs))
      else Inl (ValueError (''Unknown method: '' @ method)))"

text \<open>
  \<open>compute_H\<close>.  The requested mode count is clamped to \<open>n - 2\<close>.  The log line
  \<open>f"... [{eigenvalues[0]:.6e}, {eigenvalues[-1]:.6e}]"\<close> reads the first and the last
  eigenvalue and raises \<open>IndexError\<close> on an empty array.  The handler re-raises.
\<close>

definition compute_H :: "linalg \<Rightarrow> py_matrix \<Rightarrow> py_matrix \<Rightarrow> int \<Rightarrow> string \<Rightarrow> error + compute_H_result" where
  "compute_H la K M modes method =
     (let n = length (toarray K);
          k = min modes (int n - 2)
      in and_then (solve_eigenproblem la K M n k) (\<lambda>vs.
         if vs = [] then Inl IndexError
         else and_then (build_H method vs) (\<lambda>Hm.
           Inr \<lparr> hamiltonian = (if length Hm > 50 then CSRMatrix Hm else NDArray Hm),
                 eigenvalues = vs,
                 num_dofs = n,
                 num_modes = length vs \<rparr>)))"

text \<open>
  What the proofs assume of the solvers: \<open>eigh\<close> returns as many eigenvalues as the
  matrix has rows, \<open>eigsh\<close> returns the \<open>k\<close> it was asked for and accepts only
  \<open>0 < k < n\<close>, \<open>inv\<close> and \<open>solve\<close> keep the number of rows.
\<close>

definition eigh_contract :: "linalg \<Rightarrow> bool" where
  "eigh_contract la = (\<forall>A vs. linalg_eigh la A = Inr vs \<longrightarrow> length vs = length A)"

definition eigsh_contract :: "linalg \<Rightarrow> bool" where
  "eigsh_contract la =
     (\<forall>K k M vs. eigsh la K k M = Inr vs \<longrightarrow> 0 < k \<and> k < int (length K) \<and> int (length vs) = k)"

definition shape_contract :: "linalg \<Rightarrow> bool" where
  "shape_contract la =
     ((\<forall>A B. linalg_inv la A = Inr B \<longrightarrow> length B = length A) \<and>
      (\<forall>M K A. linalg_solve la M K = Inr A \<longrightarrow> length A = length K))"

section \<open>qfea_core/classical_utils/compute_pauli_coeffs_batch_parallel.py\<close>

text \<open>
  The Hamiltonian is a list of rows of complex entries; every read \<open>H[i, j]\<close> of the
  source is guarded by \<open>i < n\<close> and \<open>j < n\<close>, which is in range for a square matrix.
  The two parallel lists \<open>pauli_terms\<close> and \<open>pauli_coeffs\<close> grow together and are one
  list of pairs here.  A coefficient is stored as a complex number, as in the array
  \<open>np.array(pauli_coeffs)\<close> of a complex matrix; \<open>np.abs\<close> is the modulus and the final
  \<open>float(c)\<close> keeps the real part.
\<close>

type_synonym matrix = "complex list list"
type_synonym pauli_term = "string \<times> complex"

record pauli_decomposition =
  pauli_terms :: "string list"
  pauli_coefficients :: "real list"
  num_qubits :: int
  num_terms :: nat

text \<open>\<open>np.trace(H)\<close>\<close>

definition trace_of :: "matrix \<Rightarrow> complex" where
  "trace_of H = sum_list (map (\<lambda>i. H ! i ! i) [0..<length H])"

text \<open>The three shapes of operator string the source builds.\<close>

definition identity_string :: "nat \<Rightarrow> string" where
  "identity_string nq = replicate nq (CHR ''I'')"

definition z_string :: "nat \<Rightarrow> nat \<Rightarrow> string" where
  "z_string nq i = replicate i (CHR ''I'') @ [CHR ''Z''] @ replicate (nq - i - 1) (CHR ''I'')"

definition pair_string :: "nat \<Rightarrow> char \<Rightarrow> nat \<Rightarrow> nat \<Rightarrow> string" where
  "pair_string nq p i j = (replicate nq (CHR ''I'')) [i := p, j := p]"

text \<open>The loop of step 2 over \<open>range(min(num_qubits, n))\<close>, with its \<open>break\<close>.\<close>

fun z_loop :: "matrix \<Rightarrow> nat \<Rightarrow> int \<Rightarrow> real \<Rightarrow> nat list \<Rightarrow> pauli_term list \<Rightarrow> pauli_term list" where
  "z_loop H nq max_terms threshold [] acc = acc"
| "z_loop H nq max_terms threshold (i # is) acc =
     (if i < length H \<and> cmod (H ! i ! i) > threshold then
        (let acc' = acc @ [(z_string nq i, complex_of_real (Re (H ! i ! i)))]
         in if int (length acc') \<ge> max_terms then acc'
            else z_loop H nq max_terms threshold is acc')
      else z_loop H nq max_terms threshold is acc)"

text \<open>The XX and YY appends for one entry \<open>H[i, j]\<close> above the threshold.\<close>

definition xy_terms :: "matrix \<Rightarrow> nat \<Rightarrow> real \<Rightarrow> nat \<Rightarrow> nat \<Rightarrow> pauli_term list" where
  "xy_terms H nq threshold i j =
     (let coeff = H ! i ! j;
          real_part = Re coeff;
          imag_part = Im coeff
      in (if \<bar>real_part\<bar> > threshold
          then [(pair_string nq (CHR ''X'') i j, complex_of_real real_part)] else []) @
         (if \<bar>imag_part\<bar> > threshold
          then [(pair_string nq (CHR ''Y'') i j, complex_of_real imag_part)] else []))"

text \<open>
  The inner loop of step 3 over \<open>j\<close>.  Both \<open>break\<close> statements (lines 108 and 111)
  stand inside this loop and test \<open>len(pauli_terms) >= max_terms\<close>: the first after the
  appends, the second at the end of every iteration.
\<close>

fun xy_inner :: "matrix \<Rightarrow> nat \<Rightarrow> int \<Rightarrow> real \<Rightarrow> nat \<Rightarrow> nat list \<Rightarrow> pauli_term list \<Rightarrow> pauli_term list" where
  "xy_inner H nq max_terms threshold i [] acc = acc"
| "xy_inner H nq max_terms threshold i (j # js) acc =
     (if i < length H \<and> j < length H \<and> cmod (H ! i ! j) > threshold then
        (let acc' = acc @ xy_terms H nq threshold i j
         in if int (length acc') \<ge> max_terms then acc'
            else xy_inner H nq max_terms threshold i js acc')
      else if int (length acc) \<ge> max_terms then acc
      else xy_inner H nq max_terms threshold i js acc)"

text \<open>The outer loop of step 3 over \<open>i\<close>; no \<open>break\<close> leaves it.\<close>

fun xy_outer :: "matrix \<Rightarrow> nat \<Rightarrow> int \<Rightarrow> real \<Rightarrow> nat list \<Rightarrow> pauli_term list \<Rightarrow> pauli_term list" where
  "xy_outer H nq max_terms threshold [] acc = acc"
| "xy_outer H nq max_terms threshold (i # is) acc =
     xy_outer H nq max_terms threshold is
       (xy_inner H nq max_terms threshold i [i + 1..<min nq (length H)] acc)"

text \<open>Step 1: the all-identity term, tested on the trace itself.\<close>

definition identity_term :: "matrix \<Rightarrow> nat \<Rightarrow> real \<Rightarrow> pauli_term list" where
  "identity_term H nq threshold =
     (if cmod (trace_of H) > threshold
      then [(identity_string nq, trace_of H / of_nat (length H))] else [])"

text \<open>
  The candidates collected by the three steps, before sorting.  The loop over the
  diagonal stops after the first append that leaves \<open>max_terms\<close> or more entries; the
  off-diagonal scan runs only if fewer than \<open>max_terms\<close> entries are held.
\<close>

definition accumulated_terms :: "matrix \<Rightarrow> int \<Rightarrow> real \<Rightarrow> pauli_term list" where
  "accumulated_terms H max_terms threshold =
     (let n = length H;
          nq = ceil_log2 n;
          t0 = identity_term H nq threshold;
          t1 = z_loop H nq max_terms threshold [0..<min nq n] t0
      in if int (length t1) < max_terms
         then xy_outer H nq max_terms threshold [0..<min nq (n - 1)] t1
         else t1)"

text \<open>
  \<open>np.argsort\<close> is a parameter of the model.  It returns the indices that put its
  argument in ascending order; which of two equal keys comes first is left open, since
  the default sort of numpy is not stable.
\<close>

definition argsort_contract :: "(real list \<Rightarrow> nat list) \<Rightarrow> bool" where
  "argsort_contract argsort =
     (\<forall>ks. mset (argsort ks) = mset [0..<length ks] \<and> sorted (map (\<lambda>i. ks ! i) (argsort ks)))"

text \<open>\<open>sorted_indices = np.argsort(-np.abs(pauli_coeffs))\<close>\<close>

definition sorted_indices :: "(real list \<Rightarrow> nat list) \<Rightarrow> pauli_term list \<Rightarrow> nat list" where
  "sorted_indices argsort acc = argsort (map (\<lambda>(s, c). - cmod c) acc)"

text \<open>
  The two comprehensions over \<open>sorted_indices[:max_terms]\<close>, which read the two lists at
  the same indices; an index out of range raises \<open>IndexError\<close>.
\<close>

definition kept_terms :: "(real list \<Rightarrow> nat list) \<Rightarrow> matrix \<Rightarrow> int \<Rightarrow> real \<Rightarrow> error + pauli_term list" where
  "kept_terms argsort H max_terms threshold =
     (let acc = accumulated_terms H max_terms threshold;
          indices = py_take max_terms (sorted_indices argsort acc)
      in if list_all (\<lambda>i. i < length acc) indices then Inr (map (\<lambda>i. acc ! i) indices)
         else Inl IndexError)"

text \<open>
  \<open>compute_pauli_coefficients\<close>.  A matrix of side 0 makes \<open>int(np.ceil(np.log2(0)))\<close>
  raise \<open>OverflowError\<close>; every exception is re-raised by the handler.
\<close>

definition compute_pauli_coefficients :: "(real list \<Rightarrow> nat list) \<Rightarrow> matrix \<Rightarrow> int \<Rightarrow> real \<Rightarrow> error + pauli_decomposition" where
  "compute_pauli_coefficients argsort H max_terms threshold =
     (if length H = 0 then Inl OverflowError
      else
        and_then (kept_terms argsort H max_terms threshold) (\<lambda>kept.
        Inr \<lparr> pauli_terms = map fst kept,
              pauli_coefficients = map (\<lambda>(s, c). Re c) kept,
              num_qubits = int (ceil_log2 (length H)),
              num_terms = length kept \<rparr>))"

subsection \<open>The decomposition over the full candidate set\<close>

text \<open>
  The candidate set as the specification words it: the identity candidate, every
  per-qubit Z candidate and every XX/YY candidate for \<open>i < j\<close> that clears the threshold,
  with no early stop; and the decomposition it asks for, the \<open>max_terms\<close> largest
  magnitudes of a candidate list in descending order.  These definitions are compared
  with \<open>accumulated_terms\<close> and \<open>kept_terms\<close>, which follow the code.
\<close>

definition z_candidates :: "matrix \<Rightarrow> nat \<Rightarrow> real \<Rightarrow> nat list \<Rightarrow> pauli_term list" where
  "z_candidates H nq threshold is =
     map (\<lambda>i. (z_string nq i, complex_of_real (Re (H ! i ! i))))
       (filter (\<lambda>i. i < length H \<and> cmod (H ! i ! i) > threshold) is)"

definition xy_candidates_row :: "matrix \<Rightarrow> nat \<Rightarrow> real \<Rightarrow> nat \<Rightarrow> nat list \<Rightarrow> pauli_term list" where
  "xy_candidates_row H nq threshold i js =
     concat (map (\<lambda>j. if i < length H \<and> j < length H \<and> cmod (H ! i ! j) > threshold
                        then xy_terms H nq threshold i j else []) js)"

definition xy_candidates :: "matrix \<Rightarrow> nat \<Rightarrow> real \<Rightarrow> nat list \<Rightarrow> pauli_term list" where
  "xy_candidates H nq threshold is =
     concat (map (\<lambda>i. xy_candidates_row H nq threshold i [i + 1..<min nq (length H)]) is)"

definition full_candidates :: "matrix \<Rightarrow> real \<Rightarrow> pauli_term list" where
  "full_candidates H threshold =
     (let n = length H; nq = ceil_log2 n
      in identity_term H nq threshold @
         z_candidates H nq threshold [0..<min nq n] @
         xy_candidates H nq threshold [0..<min nq (n - 1)])"

definition descending :: "pauli_term list \<Rightarrow> bool" where
  "descending xs = sorted_wrt (\<lambda>a b. cmod (snd b) \<le> cmod (snd a)) xs"

text \<open>
  \<open>xs\<close> holds the \<open>m\<close> largest magnitudes of \<open>cands\<close> in descending order: it is drawn
  from \<open>cands\<close>, has \<open>m\<close> members, or all when there are fewer, and no member left out
  is larger than one taken.
\<close>

definition largest_members :: "nat \<Rightarrow> pauli_term list \<Rightarrow> pauli_term list \<Rightarrow> bool" where
  "largest_members m cands xs =
     (descending xs \<and> length xs = min m (length cands) \<and> mset xs \<subseteq># mset cands \<and>
      (\<forall>x \<in> set xs. \<forall>y \<in> set_mset (mset cands - mset xs). cmod (snd y) \<le> cmod (snd x)))"

text \<open>
  What the scan of the code takes of the candidates.  Of the Z candidates it takes the
  first \<open>max_terms - held\<close>, where \<open>held\<close> counts the identity term, and at least one,
  since the count is tested only after an append.  Of the XX/YY candidates of row \<open>i\<close>
  it takes those of the first \<open>k i\<close> entries \<open>H[i, j]\<close>, \<open>j > i\<close>; \<open>scanned_rows\<close> says
  which \<open>k\<close> that is, given the terms \<open>held\<close> before the first row: at least one entry
  of every row is read, and a row is left after the first entry at which \<open>max_terms\<close>
  or more terms are held.
\<close>

definition z_scan :: "matrix \<Rightarrow> int \<Rightarrow> real \<Rightarrow> pauli_term list" where
  "z_scan H max_terms threshold =
     (let n = length H; nq = ceil_log2 n
      in take (nat (max 1 (max_terms - int (length (identity_term H nq threshold)))))
           (z_candidates H nq threshold [0..<min nq n]))"

definition xy_rows_upto :: "matrix \<Rightarrow> real \<Rightarrow> (nat \<Rightarrow> nat) \<Rightarrow> nat \<Rightarrow> pauli_term list" where
  "xy_rows_upto H threshold k m =
     (let n = length H; nq = ceil_log2 n
      in concat (map (\<lambda>i. xy_candidates_row H nq threshold i (take (k i) [i + 1..<min nq n]))
                  [0..<m]))"

definition scanned_rows :: "matrix \<Rightarrow> int \<Rightarrow> real \<Rightarrow> pauli_term list \<Rightarrow> (nat \<Rightarrow> nat) \<Rightarrow> bool" where
  "scanned_rows H max_terms threshold held k =
     (let n = length H; nq = ceil_log2 n
      in \<forall>i < min nq (n - 1).
           (let js = [i + 1..<min nq n];
                before = held @ xy_rows_upto H threshold k i
            in k i \<le> length js \<and> (js \<noteq> [] \<longrightarrow> 1 \<le> k i) \<and>
               (\<forall>k' \<in> {1..<k i}.
                  int (length (before @ xy_candidates_row H nq threshold i (take k' js))) < max_terms) \<and>
               (k i < length js \<longrightarrow>
                  max_terms \<le> int (length (before @ xy_candidates_row H nq threshold i (take (k i) js))))))"

definition pauli_alphabet :: "char set" where
  "pauli_alphabet = {CHR ''I'', CHR ''X'', CHR ''Y'', CHR ''Z''}"

text \<open>What a non-identity candidate looks like.\<close>

definition proper_term :: "nat \<Rightarrow> pauli_term \<Rightarrow> bool" where
  "proper_term nq t =
     (length (fst t) = nq \<and> set (fst t) \<subseteq> pauli_alphabet \<and>
      fst t \<noteq> identity_string nq \<and> Im (snd t) = 0)"

section \<open>qfea_core/quantum_utils/trotter_circuit_synthesis.py\<close>


record circuit_info =
  ci_num_qubits :: int
  num_gates :: int
  depth :: int
  num_pauli_terms :: int

text \<open>
  The dictionary \<open>simulate_hamiltonian\<close> returns.  The key \<open>evolution_time\<close> exists only
  in the result of the real path and the key \<open>mock\<close> only in the mock result: \<open>mock\<close> is
  \<open>True\<close> exactly when the key is present.
\<close>

record 'c sim_result =
  circuit :: "'c option"
  circuit_info :: circuit_info
  qasm :: string
  success :: bool
  trotter_steps :: int
  evolution_time :: "py_number option"
  mock :: bool

text \<open>
  Qiskit is an external library.  Its calls are parameters of the model: each may return
  or raise, and a call that mutates the circuit returns the new circuit.
\<close>

record ('c, 'o, 'g) backend =
  QISKIT_AVAILABLE :: bool
  QuantumCircuit :: "int \<Rightarrow> error + 'c"
  gate_h :: "'c \<Rightarrow> nat \<Rightarrow> error + 'c"
  SparsePauliOp :: "string list \<Rightarrow> real list \<Rightarrow> error + 'o"
  PauliEvolutionGate :: "'o \<Rightarrow> py_float \<Rightarrow> error + 'g"
  append_gate :: "'c \<Rightarrow> 'g \<Rightarrow> nat list \<Rightarrow> error + 'c"
  measure_all :: "'c \<Rightarrow> error + 'c"
  circuit_num_qubits :: "'c \<Rightarrow> int"
  circuit_data_len :: "'c \<Rightarrow> int"
  circuit_depth_of :: "'c \<Rightarrow> error + int"
  circuit_qasm :: "'c \<Rightarrow> error + string"

text \<open>The three loops that write the mock QASM text.\<close>

definition mock_h_lines :: "int \<Rightarrow> string" where
  "mock_h_lines nq = concat (map (\<lambda>i. ''h q['' @ str_nat i @ ''];\<newline>'') (py_range nq))"

definition mock_step_lines :: "int \<Rightarrow> nat \<Rightarrow> string" where
  "mock_step_lines nq step =
     ''// Step '' @ str_nat (step + 1) @ ''\<newline>'' @
     concat (map (\<lambda>i.
        ''cx q['' @ str_nat i @ ''],q['' @ str_nat (i + 1) @ ''];\<newline>'' @
        ''rz(0.1) q['' @ str_nat (i + 1) @ ''];\<newline>'' @
        ''cx q['' @ str_nat i @ ''],q['' @ str_nat (i + 1) @ ''];\<newline>'')
       (py_range (nq - 1)))"

definition mock_measure_lines :: "int \<Rightarrow> string" where
  "mock_measure_lines nq =
     concat (map (\<lambda>i. ''measure q['' @ str_nat i @ ''] -> c['' @ str_nat i @ ''];\<newline>'')
       (py_range nq))"

definition mock_qasm :: "int \<Rightarrow> int \<Rightarrow> int \<Rightarrow> string" where
  "mock_qasm nq nterms steps =
     ''OPENQASM 2.0;\<newline>'' @
     ''include '' @ [CHR 0x22] @ ''qelib1.inc'' @ [CHR 0x22] @ '';\<newline>'' @
     ''qreg q['' @ str_int nq @ ''];\<newline>'' @
     ''creg c['' @ str_int nq @ ''];\<newline>'' @
     ''\<newline>'' @
     ''// Mock Trotter circuit with '' @ str_int steps @ '' steps\<newline>'' @
     ''// Simulating '' @ str_int nterms @ '' Pauli terms\<newline>'' @
     mock_h_lines nq @
     ''\<newline>// Trotter evolution (mock)\<newline>'' @
     concat (map (mock_step_lines nq) (py_range (min steps 3))) @
     ''\<newline>// Measurement\<newline>'' @
     mock_measure_lines nq"

definition create_mock_circuit_result :: "int \<Rightarrow> int \<Rightarrow> int \<Rightarrow> 'c sim_result" where
  "create_mock_circuit_result nq nterms steps =
     (let gates_per_term = 3;
          gates_per_step = nterms * gates_per_term;
          total_gates = gates_per_step * steps + nq
      in \<lparr> circuit = None,
           circuit_info = \<lparr> ci_num_qubits = nq, num_gates = total_gates,
                            depth = steps * nterms, num_pauli_terms = nterms \<rparr>,
           qasm = mock_qasm nq nterms steps,
           success = True,
           trotter_steps = steps,
           evolution_time = None,
           mock = True \<rparr>)"


text \<open>
  The Trotter loop \<open>for step in range(trotter_steps)\<close>.  It runs inside the inner
  \<open>try\<close>, whose handler only logs: an exception ends the loop and the circuit keeps the
  gates appended so far.
\<close>

fun trotter_loop :: "('c, 'o, 'g) backend \<Rightarrow> 'o \<Rightarrow> py_float \<Rightarrow> int \<Rightarrow> nat \<Rightarrow> 'c \<Rightarrow> 'c" where
  "trotter_loop b hop dt nq 0 c = c"
| "trotter_loop b hop dt nq (Suc k) c =
     (case PauliEvolutionGate b hop dt of
        Inl e \<Rightarrow> c
      | Inr g \<Rightarrow>
          (case append_gate b c g (py_range nq) of
             Inl e \<Rightarrow> c
           | Inr c' \<Rightarrow> trotter_loop b hop dt nq k c'))"





text \<open>
  The circuits that successive successful appends of the gate \<open>g\<close> produce: each
  circuit of the list but the last is appended to and gives the next.
\<close>

definition appended_chain :: "('c, 'o, 'g) backend \<Rightarrow> 'g \<Rightarrow> nat list \<Rightarrow> 'c list \<Rightarrow> bool" where
  "appended_chain b g qs cs =
     (\<forall>i. Suc i < length cs \<longrightarrow> append_gate b (cs ! i) g qs = Inr (cs ! Suc i))"

section \<open>app/services/quantum_simulator.py: compute_hamiltonian\<close>

text \<open>
  The argument \<open>matrices_result\<close> is a dictionary; a field is \<open>None\<close> when its key is
  absent, so that \<open>matrices_result['k']\<close> raises \<open>KeyError\<close>.
\<close>

record matrices_result =
  get_stiffness_matrix :: "py_matrix option"
  get_mass_matrix :: "py_matrix option"

text \<open>
  The Python value bound to \<open>H\<close>: a dense array, a scipy sparse matrix or a dictionary.
  \<open>compute_H\<close> of hamiltonian_prep.py returns a dictionary.
\<close>

datatype py_value = ArrayValue rmatrix | SparseValue rmatrix | DictValue compute_H_result

text \<open>\<open>H.shape[0]\<close>: a dictionary has no attribute \<open>shape\<close>.\<close>

definition shape0 :: "py_value \<Rightarrow> error + nat" where
  "shape0 H =
     (case H of
        ArrayValue A \<Rightarrow> Inr (length A)
      | SparseValue A \<Rightarrow> Inr (length A)
      | DictValue d \<Rightarrow> Inl AttributeError)"

text \<open>\<open>self.max_qubits\<close>\<close>

definition max_qubits :: int where
  "max_qubits = 20"

text \<open>
  \<open>np.zeros((p, p))\<close> returns the zero matrix or raises \<open>MemoryError\<close>; the parameter
  \<open>allocates\<close> says for which sides the machine has the memory.
\<close>

definition np_zeros :: "(nat \<Rightarrow> bool) \<Rightarrow> nat \<Rightarrow> error + rmatrix" where
  "np_zeros allocates p =
     (if allocates p then Inr (replicate p (replicate p 0)) else Inl MemoryError)"

text \<open>
  \<open>H_padded[:n, :n] = H\<close>, where \<open>H_padded\<close> has more than \<open>n\<close> rows and columns and \<open>H\<close>
  has \<open>n\<close> rows.  numpy copies an array with \<open>n\<close> columns, repeats the column of an array
  with one column, and raises for any other number of columns, for a sparse matrix
  and for a dictionary.
\<close>

definition assign_leading :: "rmatrix \<Rightarrow> rmatrix \<Rightarrow> rmatrix" where
  "assign_leading Z A =
     map (\<lambda>i. if i < length A then A ! i @ drop (length (A ! i)) (Z ! i) else Z ! i)
       [0..<length Z]"

definition assign_block :: "rmatrix \<Rightarrow> nat \<Rightarrow> py_value \<Rightarrow> error + rmatrix" where
  "assign_block Z n H =
     (case H of
        ArrayValue A \<Rightarrow>
          if list_all (\<lambda>row. length row = n) A then Inr (assign_leading Z A)
          else if list_all (\<lambda>row. length row = 1) A
            then Inr (assign_leading Z (map (\<lambda>row. replicate n (hd row)) A))
          else Inl LibraryError
      | SparseValue A \<Rightarrow> Inl LibraryError
      | DictValue d \<Rightarrow> Inl LibraryError)"

text \<open>
  Lines 46 to 52: the side of \<open>H\<close>, the padded side, and \<open>H\<close> padded when the two
  differ.  For a side of 0, \<open>np.log2\<close> yields \<open>-inf\<close> and \<open>int\<close> raises \<open>OverflowError\<close>.
  The result is the pair of \<open>original_size\<close> and the new \<open>H\<close>.
\<close>

definition pad_to_power_of_two :: "(nat \<Rightarrow> bool) \<Rightarrow> py_value \<Rightarrow> error + nat \<times> py_value" where
  "pad_to_power_of_two allocates H =
     and_then (shape0 H) (\<lambda>original_size.
     if original_size = 0 then Inl OverflowError
     else
       (let padded_size = 2 ^ ceil_log2 original_size
        in if original_size \<noteq> padded_size then
             and_then (np_zeros allocates padded_size) (\<lambda>zeros.
             and_then (assign_block zeros original_size H) (\<lambda>H_padded.
             Inr (original_size, ArrayValue H_padded)))
           else Inr (original_size, H)))"

text \<open>
  \<open>float(np.linalg.norm(H))\<close> and \<open>float(np.trace(H))\<close>: the Frobenius norm and the sum
  of the diagonal of an array.  numpy does not convert a sparse matrix or a dictionary
  to an array, and the expressions raise.
\<close>

definition frobenius_norm :: "rmatrix \<Rightarrow> real" where
  "frobenius_norm A = sqrt (sum_list (map (\<lambda>row. sum_list (map (\<lambda>x. x ^ 2) row)) A))"

definition matrix_trace :: "rmatrix \<Rightarrow> real" where
  "matrix_trace A =
     sum_list (map (\<lambda>i. A ! i ! i) [0..<min (length A) (case A of [] \<Rightarrow> 0 | row # rows \<Rightarrow> length row)])"

definition np_norm :: "py_value \<Rightarrow> error + real" where
  "np_norm H =
     (case H of
        ArrayValue A \<Rightarrow> Inr (frobenius_norm A)
      | SparseValue A \<Rightarrow> Inl LibraryError
      | DictValue d \<Rightarrow> Inl LibraryError)"

definition np_trace :: "py_value \<Rightarrow> error + real" where
  "np_trace H =
     (case H of
        ArrayValue A \<Rightarrow> Inr (matrix_trace A)
      | SparseValue A \<Rightarrow> Inl LibraryError
      | DictValue d \<Rightarrow> Inl LibraryError)"

text \<open>The message of the \<open>ValueError\<close> of the safety check.\<close>

definition capacity_message :: "int \<Rightarrow> string" where
  "capacity_message qubits =
     ''System requires '' @ str_int qubits @ '' qubits, maximum allowed is '' @ str_int max_qubits"

text \<open>
  The call \<open>compute_pauli_coefficients(H, max_pauli_terms=..., batch_size=...)\<close> of
  lines 63 to 67.  The function of compute_pauli_coeffs_batch_parallel.py has the
  parameters \<open>H\<close>, \<open>max_terms\<close>, \<open>threshold\<close> and \<open>n_jobs\<close>: Python raises \<open>TypeError\<close> for
  the unexpected keyword argument before the body runs.
\<close>

definition compute_pauli_coefficients_call :: "py_value \<Rightarrow> int \<Rightarrow> int \<Rightarrow> error + pauli_decomposition" where
  "compute_pauli_coefficients_call H max_pauli_terms batch_size = Inl TypeError"

text \<open>
  The comprehension of lines 70 to 73 over \<open>pauli_coeffs.items()\<close>.  The first item of
  the dictionary that \<open>compute_pauli_coefficients\<close> returns is the key \<open>pauli_terms\<close>
  with a list, on which \<open>float\<close> raises \<open>TypeError\<close>.
\<close>

definition float_items :: "pauli_decomposition \<Rightarrow> error + (string \<times> real) list" where
  "float_items pauli_coeffs = Inl TypeError"

text \<open>
  The dictionary \<open>compute_hamiltonian\<close> returns, without the wall-clock
  \<open>computation_time\<close>; \<open>norm_value\<close> and \<open>trace_value\<close> are the keys \<open>norm\<close> and
  \<open>trace\<close>.
\<close>

record hamiltonian_result =
  hamiltonian_matrix :: py_value
  original_dimension :: nat
  padded_dimension :: nat
  qubit_count :: nat
  pauli_decomposition :: "(string \<times> real) list"
  norm_value :: real
  trace_value :: real

text \<open>
  \<open>compute_hamiltonian\<close>, with the two functions it imports from qfea_core as they
  stand.  \<open>compute_H(M, K)\<close> is called with the mass matrix first and with its defaults
  of 10 modes and the method \<open>standard\<close>; what it returns is a dictionary.  Every
  exception is re-raised by the handler.
\<close>

definition compute_hamiltonian ::
  "linalg \<Rightarrow> (nat \<Rightarrow> bool) \<Rightarrow> matrices_result \<Rightarrow> int \<Rightarrow> error + hamiltonian_result" where
  "compute_hamiltonian la allocates matrices_result max_pauli_terms =
     and_then (subscript (get_stiffness_matrix matrices_result)) (\<lambda>K.
     and_then (subscript (get_mass_matrix matrices_result)) (\<lambda>M.
     and_then (compute_H la M K 10 ''standard'') (\<lambda>d.
     and_then (pad_to_power_of_two allocates (DictValue d)) (\<lambda>(original_size, H).
     and_then (shape0 H) (\<lambda>padded_size.
     (let qubits = floor_log2 padded_size
      in if int qubits > max_qubits then Inl (ValueError (capacity_message (int qubits)))
         else
           and_then (compute_pauli_coefficients_call H
                       (min max_pauli_terms (4 ^ qubits))
                       (min 16 (max_pauli_terms div 4))) (\<lambda>pauli_coeffs.
           and_then (float_items pauli_coeffs) (\<lambda>decomposition.
           and_then (np_norm H) (\<lambda>norm_of_H.
           and_then (np_trace H) (\<lambda>trace_of_H.
           Inr \<lparr> hamiltonian_matrix = H,
                 original_dimension = original_size,
                 padded_dimension = padded_size,
                 qubit_count = qubits,
                 pauli_decomposition = decomposition,
                 norm_value = norm_of_H,
                 trace_value = trace_of_H \<rparr>))))))))))"

text \<open>A square matrix: every row is as long as the list of rows.\<close>

definition square :: "rmatrix \<Rightarrow> bool" where
  "square A = list_all (\<lambda>row. length row = length A) A"

section \<open>app/services/quantum_simulator.py: the mock simulation\<close>

text \<open>
  \<open>QuantumSimulator._mock_simulation\<close>, the result \<open>run_simulation\<close> returns when the
  service finds no Qiskit.  Only the circuit metrics and the flag are modelled; the
  argument \<open>steps_param\<close> is \<open>simulation_params.get('trotter_steps')\<close>, with default 10.
\<close>

record mock_simulation_result =
  circuit_depth :: int
  gate_count :: int
  mock_simulation_flag :: bool

definition mock_simulation :: "int \<Rightarrow> nat \<Rightarrow> int option \<Rightarrow> mock_simulation_result" where
  "mock_simulation qubits n_decomposition steps_param =
     (let steps = (case steps_param of None \<Rightarrow> 10 | Some s \<Rightarrow> s);
          cdepth = steps * int n_decomposition * 3;
          gcount = cdepth * qubits
      in \<lparr> circuit_depth = cdepth, gate_count = gcount, mock_simulation_flag = True \<rparr>)"

section \<open>app/services/quantum_simulator.py: the amplitude estimate\<close>







section \<open>Concrete inputs for the closed theorems\<close>







text \<open>A stable \<open>argsort\<close>: among equal keys the smaller index comes first.\<close>

definition stable_argsort :: "real list \<Rightarrow> nat list" where
  "stable_argsort ks = sort_key (\<lambda>i. ks ! i) [0..<length ks]"

text \<open>Two Hermitian matrices: \<open>diag(1, 5, 0, 0)\<close> and \<open>diag(3, 0)\<close>.\<close>

definition diag4 :: matrix where
  "diag4 = [[1, 0, 0, 0], [0, 5, 0, 0], [0, 0, 0, 0], [0, 0, 0, 0]]"

definition upper2 :: matrix where
  "upper2 = [[3, 0], [0, 0]]"

text \<open>
  A stand-in for the solvers that is right on diagonal matrices: the inverse and the
  solution divide by the diagonal and raise on a zero of it, the eigenvalues are the
  sorted diagonal; the sparse solver always gives up.
\<close>

definition diagonal_of :: "rmatrix \<Rightarrow> real list" where
  "diagonal_of A = map (\<lambda>i. A ! i ! i) [0..<length A]"

definition diagonal_linalg :: linalg where
  "diagonal_linalg =
     \<lparr> eigsh = (\<lambda>K k M. Inl LibraryError),
       linalg_solve = (\<lambda>M K. if 0 \<in> set (diagonal_of M) then Inl LibraryError
                       else Inr (map (\<lambda>i. map (\<lambda>x. x / (M ! i ! i)) (K ! i)) [0..<length K])),
       linalg_inv = (\<lambda>M. if 0 \<in> set (diagonal_of M) then Inl LibraryError
                   else Inr (np_diag (map (\<lambda>d. 1 / d) (diagonal_of M)))),
       linalg_eigh = (\<lambda>A. Inr (sort (diagonal_of A))) \<rparr>"

text \<open>
  Real matrices: the identity of side 2, 3 and 4 and the zero matrix of side 4; and
  three arguments of \<open>compute_hamiltonian\<close>: the identity of side 3 and of side 4 for
  both matrices, and the zero matrix of side 4 for the stiffness with the identity
  for the mass.
\<close>

definition identity2 :: rmatrix where
  "identity2 = [[1, 0], [0, 1]]"

definition identity3 :: rmatrix where
  "identity3 = [[1, 0, 0], [0, 1, 0], [0, 0, 1]]"

definition identity4 :: rmatrix where
  "identity4 = [[1, 0, 0, 0], [0, 1, 0, 0], [0, 0, 1, 0], [0, 0, 0, 1]]"

definition zero4 :: rmatrix where
  "zero4 = [[0, 0, 0, 0], [0, 0, 0, 0], [0, 0, 0, 0], [0, 0, 0, 0]]"

definition identity3_matrices :: matrices_result where
  "identity3_matrices =
     \<lparr> get_stiffness_matrix = Some (NDArray identity3), get_mass_matrix = Some (NDArray identity3) \<rparr>"

definition identity4_matrices :: matrices_result where
  "identity4_matrices =
     \<lparr> get_stiffness_matrix = Some (NDArray identity4), get_mass_matrix = Some (NDArray identity4) \<rparr>"

definition singular_matrices :: matrices_result where
  "singular_matrices =
     \<lparr> get_stiffness_matrix = Some (NDArray zero4), get_mass_matrix = Some (NDArray identity4) \<rparr>"

section \<open>The integer logarithms\<close>

lemma ceil_log2_real: "1 \<le> n \<Longrightarrow> int (ceil_log2 n) = \<lceil>log 2 (real n)\<rceil>"
proof (induction n rule: ceil_log2.induct)
  case (1 n)
  show ?case
  proof (cases "n \<le> 1")
    case True
    with 1(2) have "n = 1" by simp
    then show ?thesis by (simp add: ceil_log2.simps)
  next
    case False
    then have n2: "2 \<le> n" by simp
    have eq: "(n - 1) div 2 + 1 = (n + 1) div 2" using n2 by presburger
    have "1 \<le> (n + 1) div 2" using n2 by presburger
    with 1(1)[OF False] have ih: "int (ceil_log2 ((n + 1) div 2)) = \<lceil>log 2 (real ((n + 1) div 2))\<rceil>" by simp
    have "\<lceil>log 2 (real n)\<rceil> = \<lceil>log 2 (real ((n - 1) div 2 + 1))\<rceil> + 1"
      using n2 by (rule ceiling_log2_div2)
    with ih eq False show ?thesis by (simp add: ceil_log2.simps[of n])
  qed
qed

lemma floor_log2_real: "1 \<le> n \<Longrightarrow> int (floor_log2 n) = \<lfloor>log 2 (real n)\<rfloor>"
proof (induction n rule: floor_log2.induct)
  case (1 n)
  show ?case
  proof (cases "n \<le> 1")
    case True
    with 1(2) have "n = 1" by simp
    then show ?thesis by (simp add: floor_log2.simps)
  next
    case False
    then have n2: "2 \<le> n" by simp
    have "1 \<le> n div 2" using n2 by presburger
    with 1(1)[OF False] have ih: "int (floor_log2 (n div 2)) = \<lfloor>log 2 (real (n div 2))\<rfloor>" by simp
    have "\<lfloor>log 2 (real n)\<rfloor> = \<lfloor>log 2 (real (n div 2))\<rfloor> + 1"
      using n2 by (rule floor_log2_div2)
    with ih False show ?thesis by (simp add: floor_log2.simps[of n])
  qed
qed

lemma ceil_log2_bounds: "1 \<le> n \<Longrightarrow> n \<le> 2 ^ ceil_log2 n \<and> (2 \<le> n \<longrightarrow> 2 ^ (ceil_log2 n - 1) < n)"
proof (induction n rule: ceil_log2.induct)
  case (1 n)
  show ?case
  proof (cases "n \<le> 1")
    case True
    with 1(2) show ?thesis by (simp add: ceil_log2.simps)
  next
    case False
    then have n2: "2 \<le> n" by simp
    let ?m = "(n + 1) div 2"
    have m1: "1 \<le> ?m" using n2 by presburger
    from 1(1)[OF False m1] have ih: "?m \<le> 2 ^ ceil_log2 ?m" "2 \<le> ?m \<Longrightarrow> 2 ^ (ceil_log2 ?m - 1) < ?m"
      by simp_all
    have c: "ceil_log2 n = Suc (ceil_log2 ?m)" using False by (simp add: ceil_log2.simps[of n])
    have up: "n \<le> 2 ^ ceil_log2 n" using ih(1) c by simp
    have lo: "2 ^ (ceil_log2 n - 1) < n"
    proof (cases "2 \<le> ?m")
      case True
      then have "ceil_log2 ?m = Suc (ceil_log2 ((?m + 1) div 2))"
        by (subst ceil_log2.simps) simp
      then have "(2::nat) ^ ceil_log2 ?m = 2 * 2 ^ (ceil_log2 ?m - 1)" by simp
      moreover have "2 * 2 ^ (ceil_log2 ?m - 1) < n"
        using ih(2)[OF True] by presburger
      ultimately show ?thesis using c by simp
    next
      case False
      with m1 have "?m = 1" by simp
      then have "ceil_log2 ?m = 0" by (simp add: ceil_log2.simps)
      with c n2 show ?thesis by simp
    qed
    from up lo show ?thesis by simp
  qed
qed

lemma floor_log2_power: "floor_log2 (2 ^ k) = k"
proof (induction k)
  case 0
  show ?case by (simp add: floor_log2.simps)
next
  case (Suc k)
  have "(0::nat) < 2 ^ k" by simp
  then have g: "\<not> (2::nat) * 2 ^ k \<le> Suc 0" by linarith
  have "floor_log2 (2 * 2 ^ k) = Suc (floor_log2 (2 * 2 ^ k div 2))"
    using g by (simp add: floor_log2.simps[of "2 * 2 ^ k"])
  with Suc show ?case by simp
qed

section \<open>Properties of the Pauli decomposition\<close>

subsection \<open>Evaluation on the two matrices\<close>

lemma ceil_log2_4: "ceil_log2 4 = 2" by code_simp
lemma upt_small: "[0..<2] = [0, 1]" "[1..<2] = [1]" "[2..<2] = []" "[0..<4] = [0, 1, 2, 3]"
  by code_simp+

lemma diag4_facts:
  "length diag4 = 4" "trace_of diag4 = 6"
  "diag4 ! 0 ! 0 = 1" "diag4 ! Suc 0 ! Suc 0 = 5" "diag4 ! 0 ! Suc 0 = 0"
  by (simp_all add: diag4_def trace_of_def upt_small)

lemma diag4_accumulated_1: "accumulated_terms diag4 1 (1/1000000) = [(''II'', 3/2), (''ZI'', 1)]"
  by (simp add: accumulated_terms_def diag4_facts ceil_log2_4 identity_term_def
      identity_string_def upt_small Let_def z_string_def numeral_2_eq_2)

lemma diag4_accumulated_10: "accumulated_terms diag4 10 (1/1000000) = [(''II'', 3/2), (''ZI'', 1), (''IZ'', 5)]"
  by (simp add: accumulated_terms_def diag4_facts ceil_log2_4 identity_term_def
      identity_string_def upt_small Let_def z_string_def numeral_2_eq_2)

lemma ceil_log2_2: "ceil_log2 2 = 1" by code_simp

lemma upt_one: "[0..<1] = [0]" "[1..<1] = []" by code_simp+

lemma upper2_facts:
  "length upper2 = 2" "trace_of upper2 = 3" "upper2 \<noteq> []"
  "upper2 ! 0 ! 0 = 3" "upper2 ! 0 ! Suc 0 = 0"
  by (simp_all add: upper2_def trace_of_def upt_small)

lemma upper2_accumulated:
  "accumulated_terms upper2 100 2 = [(''I'', 3 / 2), (''Z'', 3)]"
  by (simp add: accumulated_terms_def upper2_facts ceil_log2_2 identity_term_def
      identity_string_def upt_one Let_def z_string_def)

subsection \<open>The loops collect a sub-list of the full candidate list\<close>

lemma z_loop_subseq:
  "\<exists>ys. z_loop H nq mt thr is acc = acc @ ys \<and> subseq ys (z_candidates H nq thr is)"
proof (induction "is" arbitrary: acc)
  case Nil
  show ?case by (simp add: z_candidates_def)
next
  case (Cons i "is")
  show ?case
  proof (cases "i < length H \<and> cmod (H ! i ! i) > thr")
    case False
    with Cons[of acc] show ?thesis by (auto simp: z_candidates_def)
  next
    case True
    let ?t = "(z_string nq i, complex_of_real (Re (H ! i ! i)))"
    have zc: "z_candidates H nq thr (i # is) = ?t # z_candidates H nq thr is"
      using True by (simp add: z_candidates_def)
    show ?thesis
    proof (cases "int (length (acc @ [?t])) \<ge> mt")
      case True
      with \<open>i < length H \<and> cmod (H ! i ! i) > thr\<close>
      have "z_loop H nq mt thr (i # is) acc = acc @ [?t]" by (simp add: Let_def)
      moreover have "subseq [?t] (?t # z_candidates H nq thr is)" by simp
      ultimately show ?thesis unfolding zc by blast
    next
      case False
      with \<open>i < length H \<and> cmod (H ! i ! i) > thr\<close>
      have "z_loop H nq mt thr (i # is) acc = z_loop H nq mt thr is (acc @ [?t])"
        by (simp add: Let_def)
      moreover from Cons[of "acc @ [?t]"] obtain ys where
        "z_loop H nq mt thr is (acc @ [?t]) = (acc @ [?t]) @ ys" "subseq ys (z_candidates H nq thr is)"
        by blast
      ultimately have "z_loop H nq mt thr (i # is) acc = acc @ (?t # ys)" 
        "subseq (?t # ys) (?t # z_candidates H nq thr is)" by simp_all
      then show ?thesis unfolding zc by blast
    qed
  qed
qed

lemma xy_inner_step:
  "xy_inner H nq mt thr i (j # js) acc =
     (let acc' = acc @ (if i < length H \<and> j < length H \<and> cmod (H ! i ! j) > thr
                        then xy_terms H nq thr i j else [])
      in if int (length acc') \<ge> mt then acc' else xy_inner H nq mt thr i js acc')"
  by (simp add: Let_def)

lemma xy_inner_subseq:
  "\<exists>ys. xy_inner H nq mt thr i js acc = acc @ ys \<and> subseq ys (xy_candidates_row H nq thr i js)"
proof (induction js arbitrary: acc)
  case Nil
  show ?case by (simp add: xy_candidates_row_def)
next
  case (Cons j js)
  let ?c = "i < length H \<and> j < length H \<and> cmod (H ! i ! j) > thr"
  let ?ts = "if ?c then xy_terms H nq thr i j else []"
  have row: "xy_candidates_row H nq thr i (j # js) = ?ts @ xy_candidates_row H nq thr i js"
    by (simp add: xy_candidates_row_def)
  show ?case
  proof (cases "int (length (acc @ ?ts)) \<ge> mt")
    case True
    then have "xy_inner H nq mt thr i (j # js) acc = acc @ ?ts"
      by (simp only: xy_inner_step Let_def if_True)
    moreover have "subseq ?ts (?ts @ xy_candidates_row H nq thr i js)"
      by (rule subseq_rev_drop_many) simp
    ultimately show ?thesis unfolding row by blast
  next
    case False
    then have "xy_inner H nq mt thr i (j # js) acc = xy_inner H nq mt thr i js (acc @ ?ts)"
      by (simp only: xy_inner_step Let_def if_False)
    moreover from Cons[of "acc @ ?ts"] obtain ys where
      "xy_inner H nq mt thr i js (acc @ ?ts) = (acc @ ?ts) @ ys"
      "subseq ys (xy_candidates_row H nq thr i js)"
      by blast
    ultimately have "xy_inner H nq mt thr i (j # js) acc = acc @ (?ts @ ys)"
      "subseq (?ts @ ys) (?ts @ xy_candidates_row H nq thr i js)"
      by (simp_all only: subseq_append' append_assoc)
    then show ?thesis unfolding row by blast
  qed
qed

lemma xy_outer_subseq:
  "\<exists>ys. xy_outer H nq mt thr is acc = acc @ ys \<and> subseq ys (xy_candidates H nq thr is)"
proof (induction "is" arbitrary: acc)
  case Nil
  show ?case by (simp add: xy_candidates_def)
next
  case (Cons i "is")
  let ?js = "[i + 1..<min nq (length H)]"
  obtain ys1 where y1: "xy_inner H nq mt thr i ?js acc = acc @ ys1"
    "subseq ys1 (xy_candidates_row H nq thr i ?js)"
    using xy_inner_subseq by blast
  from Cons[of "acc @ ys1"] obtain ys2 where y2:
    "xy_outer H nq mt thr is (acc @ ys1) = (acc @ ys1) @ ys2"
    "subseq ys2 (xy_candidates H nq thr is)"
    by blast
  have "xy_outer H nq mt thr (i # is) acc = acc @ (ys1 @ ys2)"
    using y1(1) y2(1) by simp
  moreover have "subseq (ys1 @ ys2) (xy_candidates H nq thr (i # is))"
    using y1(2) y2(2) by (simp add: xy_candidates_def list_emb_append_mono)
  ultimately show ?case by blast
qed

lemma accumulated_subseq:
  "\<exists>ys. accumulated_terms H mt thr = identity_term H (ceil_log2 (length H)) thr @ ys
      \<and> subseq ys (z_candidates H (ceil_log2 (length H)) thr [0..<min (ceil_log2 (length H)) (length H)] @
                   xy_candidates H (ceil_log2 (length H)) thr [0..<min (ceil_log2 (length H)) (length H - 1)])"
proof -
  let ?nq = "ceil_log2 (length H)"
  let ?t0 = "identity_term H ?nq thr"
  let ?zs = "[0..<min ?nq (length H)]"
  let ?xs = "[0..<min ?nq (length H - 1)]"
  obtain ys1 where y1: "z_loop H ?nq mt thr ?zs ?t0 = ?t0 @ ys1"
    "subseq ys1 (z_candidates H ?nq thr ?zs)"
    using z_loop_subseq by blast
  obtain ys2 where y2: "xy_outer H ?nq mt thr ?xs (?t0 @ ys1) = (?t0 @ ys1) @ ys2"
    "subseq ys2 (xy_candidates H ?nq thr ?xs)"
    using xy_outer_subseq by blast
  show ?thesis
  proof (cases "int (length (?t0 @ ys1)) < mt")
    case True
    then have "accumulated_terms H mt thr = ?t0 @ (ys1 @ ys2)"
      using y1(1) y2(1) by (simp add: accumulated_terms_def Let_def)
    moreover have "subseq (ys1 @ ys2) (z_candidates H ?nq thr ?zs @ xy_candidates H ?nq thr ?xs)"
      using y1(2) y2(2) by (rule list_emb_append_mono)
    ultimately show ?thesis by blast
  next
    case False
    then have "accumulated_terms H mt thr = ?t0 @ ys1"
      using y1(1) by (simp add: accumulated_terms_def Let_def)
    moreover have "subseq ys1 (z_candidates H ?nq thr ?zs @ xy_candidates H ?nq thr ?xs)"
      using y1(2) by (rule subseq_rev_drop_many)
    ultimately show ?thesis by blast
  qed
qed

lemma accumulated_subseq_full: "subseq (accumulated_terms H mt thr) (full_candidates H thr)"
  using accumulated_subseq[of H mt thr]
  by (auto simp: full_candidates_def Let_def subseq_append')

lemma z_loop_exact:
  "int (length acc) + int (length (z_candidates H nq thr is)) \<le> mt \<Longrightarrow>
   z_loop H nq mt thr is acc = acc @ z_candidates H nq thr is"
proof (induction "is" arbitrary: acc)
  case Nil
  show ?case by (simp add: z_candidates_def)
next
  case (Cons i "is")
  show ?case
  proof (cases "i < length H \<and> cmod (H ! i ! i) > thr")
    case False
    then have zc: "z_candidates H nq thr (i # is) = z_candidates H nq thr is"
      by (auto simp: z_candidates_def)
    with Cons.prems Cons.IH[of acc] False show ?thesis by auto
  next
    case True
    let ?t = "(z_string nq i, complex_of_real (Re (H ! i ! i)))"
    have zc: "z_candidates H nq thr (i # is) = ?t # z_candidates H nq thr is"
      using True by (simp add: z_candidates_def)
    show ?thesis
    proof (cases "int (length (acc @ [?t])) \<ge> mt")
      case stop: True
      have "int (length acc) + (1 + int (length (z_candidates H nq thr is))) \<le> mt"
        using Cons.prems zc by simp
      moreover have "mt \<le> int (length acc) + 1" using stop by simp
      ultimately have "int (length (z_candidates H nq thr is)) \<le> 0" by linarith
      then have "z_candidates H nq thr is = []" by simp
      with stop True zc show ?thesis by (simp add: Let_def)
    next
      case False
      have "int (length (acc @ [?t])) + int (length (z_candidates H nq thr is)) \<le> mt"
        using Cons.prems zc by simp
      from Cons.IH[OF this] False True zc show ?thesis by (simp add: Let_def)
    qed
  qed
qed

lemma xy_inner_exact:
  "int (length acc) + int (length (xy_candidates_row H nq thr i js)) \<le> mt \<Longrightarrow>
   xy_inner H nq mt thr i js acc = acc @ xy_candidates_row H nq thr i js"
proof (induction js arbitrary: acc)
  case Nil
  show ?case by (simp add: xy_candidates_row_def)
next
  case (Cons j js)
  let ?c = "i < length H \<and> j < length H \<and> cmod (H ! i ! j) > thr"
  let ?ts = "if ?c then xy_terms H nq thr i j else []"
  have row: "xy_candidates_row H nq thr i (j # js) = ?ts @ xy_candidates_row H nq thr i js"
    by (simp add: xy_candidates_row_def)
  show ?case
  proof (cases "int (length (acc @ ?ts)) \<ge> mt")
    case True
    have "int (length (acc @ ?ts)) + int (length (xy_candidates_row H nq thr i js)) \<le> mt"
      using Cons.prems row by simp
    with True have "int (length (xy_candidates_row H nq thr i js)) \<le> 0" by linarith
    then have "xy_candidates_row H nq thr i js = []" by simp
    with True row show ?thesis by (simp only: xy_inner_step Let_def if_True append_Nil2)
  next
    case False
    have "int (length (acc @ ?ts)) + int (length (xy_candidates_row H nq thr i js)) \<le> mt"
      using Cons.prems row by simp
    from Cons.IH[OF this] False row show ?thesis
      by (simp only: xy_inner_step Let_def if_False append_assoc)
  qed
qed

lemma xy_outer_exact:
  "int (length acc) + int (length (xy_candidates H nq thr is)) \<le> mt \<Longrightarrow>
   xy_outer H nq mt thr is acc = acc @ xy_candidates H nq thr is"
proof (induction "is" arbitrary: acc)
  case Nil
  show ?case by (simp add: xy_candidates_def)
next
  case (Cons i "is")
  let ?row = "xy_candidates_row H nq thr i [i + 1..<min nq (length H)]"
  have xc: "xy_candidates H nq thr (i # is) = ?row @ xy_candidates H nq thr is"
    by (simp add: xy_candidates_def)
  have "int (length acc) + int (length ?row) \<le> mt" using Cons.prems xc by simp
  then have inner: "xy_inner H nq mt thr i [i + 1..<min nq (length H)] acc = acc @ ?row"
    by (rule xy_inner_exact)
  have "int (length (acc @ ?row)) + int (length (xy_candidates H nq thr is)) \<le> mt"
    using Cons.prems xc by simp
  from Cons.IH[OF this] inner xc show ?case by simp
qed

lemma accumulated_exact:
  assumes "int (length (full_candidates H thr)) \<le> mt"
  shows "accumulated_terms H mt thr = full_candidates H thr"
proof -
  let ?nq = "ceil_log2 (length H)"
  let ?t0 = "identity_term H ?nq thr"
  let ?zs = "[0..<min ?nq (length H)]"
  let ?xs = "[0..<min ?nq (length H - 1)]"
  let ?zc = "z_candidates H ?nq thr ?zs"
  let ?xc = "xy_candidates H ?nq thr ?xs"
  have full: "full_candidates H thr = ?t0 @ ?zc @ ?xc"
    by (simp add: full_candidates_def Let_def)
  have len: "int (length ?t0) + int (length ?zc) + int (length ?xc) \<le> mt"
    using assms full by simp
  then have "int (length ?t0) + int (length ?zc) \<le> mt" by linarith
  then have diag4_accumulated_1: "z_loop H ?nq mt thr ?zs ?t0 = ?t0 @ ?zc" by (rule z_loop_exact)
  show ?thesis
  proof (cases "int (length (?t0 @ ?zc)) < mt")
    case True
    have "int (length (?t0 @ ?zc)) + int (length ?xc) \<le> mt" using len by simp
    then have "xy_outer H ?nq mt thr ?xs (?t0 @ ?zc) = (?t0 @ ?zc) @ ?xc" by (rule xy_outer_exact)
    with True diag4_accumulated_1 full show ?thesis by (simp add: accumulated_terms_def Let_def)
  next
    case False
    then have "mt \<le> int (length ?t0) + int (length ?zc)" by simp
    with len have "int (length ?xc) \<le> 0" by linarith
    then have "?xc = []" by simp
    with False diag4_accumulated_1 full show ?thesis by (simp add: accumulated_terms_def Let_def)
  qed
qed

subsection \<open>The shape of the candidates\<close>

lemma identity_string_props:
  "length (identity_string nq) = nq" "set (identity_string nq) \<subseteq> {CHR ''I''}"
  by (auto simp: identity_string_def)

lemma z_string_props:
  assumes "i < nq"
  shows "length (z_string nq i) = nq" "set (z_string nq i) \<subseteq> {CHR ''I'', CHR ''Z''}"
    "CHR ''Z'' \<in> set (z_string nq i)"
  using assms by (auto simp: z_string_def)

lemma pair_string_props:
  "length (pair_string nq p i j) = nq" "set (pair_string nq p i j) \<subseteq> {CHR ''I'', p}"
  "j < nq \<Longrightarrow> p \<in> set (pair_string nq p i j)"
proof -
  show "length (pair_string nq p i j) = nq" by (simp add: pair_string_def)
  show "set (pair_string nq p i j) \<subseteq> {CHR ''I'', p}"
    unfolding pair_string_def
    by (rule subset_trans[OF set_update_subset_insert])
       (use set_update_subset_insert[of "replicate nq (CHR ''I'')" i p] in auto)
  show "j < nq \<Longrightarrow> p \<in> set (pair_string nq p i j)"
  proof -
    assume "j < nq"
    then have "pair_string nq p i j ! j = p" by (simp add: pair_string_def)
    moreover have "j < length (pair_string nq p i j)" using \<open>j < nq\<close> by (simp add: pair_string_def)
    ultimately show ?thesis by (metis nth_mem)
  qed
qed

lemma z_candidates_proper:
  assumes "t \<in> set (z_candidates H nq thr is)" "\<And>i. i \<in> set is \<Longrightarrow> i < nq"
  shows "proper_term nq t"
proof -
  from assms(1) obtain i where i: "i \<in> set is" "t = (z_string nq i, complex_of_real (Re (H ! i ! i)))"
    by (auto simp: z_candidates_def)
  then have lt: "i < nq" using assms(2) by simp
  have "z_string nq i \<noteq> identity_string nq"
    using z_string_props(3)[OF lt] identity_string_props(2)[of nq] by auto
  with z_string_props(1,2)[OF lt] i(2) show ?thesis
    by (auto simp: proper_term_def pauli_alphabet_def)
qed

lemma xy_terms_proper:
  assumes "t \<in> set (xy_terms H nq thr i j)" "j < nq"
  shows "proper_term nq t"
proof -
  from assms(1) obtain p c where t: "t = (pair_string nq p i j, complex_of_real c)" "p = CHR ''X'' \<or> p = CHR ''Y''"
    by (auto simp: xy_terms_def Let_def split: if_splits)
  have "pair_string nq p i j \<noteq> identity_string nq"
    using pair_string_props(3)[OF assms(2), of p i] identity_string_props(2)[of nq] t(2) by auto
  with pair_string_props(1,2)[of nq p i j] t show ?thesis
    by (auto simp: proper_term_def pauli_alphabet_def)
qed

lemma xy_candidates_proper:
  assumes "t \<in> set (xy_candidates H nq thr is)"
  shows "proper_term nq t"
proof -
  from assms obtain i j where "j \<in> set [i + 1..<min nq (length H)]" "t \<in> set (xy_terms H nq thr i j)"
    by (auto simp: xy_candidates_def xy_candidates_row_def split: if_splits)
  then show ?thesis by (intro xy_terms_proper[of t H nq thr i j]) auto
qed

lemma accumulated_shape:
  "\<exists>ys. accumulated_terms H mt thr = identity_term H (ceil_log2 (length H)) thr @ ys
      \<and> (\<forall>t \<in> set ys. proper_term (ceil_log2 (length H)) t)"
proof -
  let ?nq = "ceil_log2 (length H)"
  from accumulated_subseq[of H mt thr] obtain ys where ys:
    "accumulated_terms H mt thr = identity_term H ?nq thr @ ys"
    "subseq ys (z_candidates H ?nq thr [0..<min ?nq (length H)] @
                xy_candidates H ?nq thr [0..<min ?nq (length H - 1)])"
    by blast
  have "proper_term ?nq t" if "t \<in> set ys" for t
  proof -
    from ys(2) that obtain t' where "t' \<in> set (z_candidates H ?nq thr [0..<min ?nq (length H)] @
                xy_candidates H ?nq thr [0..<min ?nq (length H - 1)])" "t = t'"
      by (rule list_emb_set)
    then consider "t \<in> set (z_candidates H ?nq thr [0..<min ?nq (length H)])"
      | "t \<in> set (xy_candidates H ?nq thr [0..<min ?nq (length H - 1)])" by auto
    then show ?thesis
    proof cases
      case 1
      then show ?thesis by (rule z_candidates_proper) simp
    next
      case 2
      then show ?thesis by (rule xy_candidates_proper)
    qed
  qed
  with ys(1) show ?thesis by blast
qed

lemma accumulated_wf:
  assumes "t \<in> set (accumulated_terms H mt thr)"
  shows "length (fst t) = ceil_log2 (length H) \<and> set (fst t) \<subseteq> pauli_alphabet"
proof -
  let ?nq = "ceil_log2 (length H)"
  from accumulated_shape[of H mt thr] obtain ys where ys:
    "accumulated_terms H mt thr = identity_term H ?nq thr @ ys"
    "\<forall>t \<in> set ys. proper_term ?nq t" by blast
  from assms ys(1) consider "t \<in> set (identity_term H ?nq thr)" | "t \<in> set ys" by auto
  then show ?thesis
  proof cases
    case 1
    then have "fst t = identity_string ?nq" by (auto simp: identity_term_def split: if_splits)
    then show ?thesis using identity_string_props[of ?nq] by (auto simp: pauli_alphabet_def)
  next
    case 2
    with ys(2) show ?thesis by (auto simp: proper_term_def)
  qed
qed

lemma sorted_wrt_take_drop:
  assumes "sorted_wrt P xs" "x \<in> set (take k xs)" "y \<in> set (drop k xs)"
  shows "P x y"
proof -
  have "sorted_wrt P (take k xs @ drop k xs)" using assms(1) by simp
  then show ?thesis using assms(2,3) unfolding sorted_wrt_append by blast
qed

lemma trace_real:
  assumes "\<forall>i < length H. Im (H ! i ! i) = 0"
  shows "Im (trace_of H) = 0"
proof -
  have "Im (sum_list (map f xs)) = 0" if "\<And>x. x \<in> set xs \<Longrightarrow> Im (f x) = 0" for f :: "nat \<Rightarrow> complex" and xs
    using that by (induction xs) auto
  from this[of "[0..<length H]" "\<lambda>i. H ! i ! i"] assms show ?thesis
    unfolding trace_of_def by simp
qed

lemma accumulated_real:
  assumes "\<forall>i < length H. Im (H ! i ! i) = 0" "t \<in> set (accumulated_terms H mt thr)"
  shows "Im (snd t) = 0"
proof -
  let ?nq = "ceil_log2 (length H)"
  from accumulated_shape[of H mt thr] obtain ys where ys:
    "accumulated_terms H mt thr = identity_term H ?nq thr @ ys"
    "\<forall>t \<in> set ys. proper_term ?nq t" by blast
  from assms(2) ys(1) consider "t \<in> set (identity_term H ?nq thr)" | "t \<in> set ys" by auto
  then show ?thesis
  proof cases
    case 1
    then have "snd t = trace_of H / of_nat (length H)"
      by (auto simp: identity_term_def split: if_splits)
    then show ?thesis using trace_real[OF assms(1)] by simp
  next
    case 2
    with ys(2) show ?thesis by (auto simp: proper_term_def)
  qed
qed

lemma cmod_real: "Im c = 0 \<Longrightarrow> cmod c = \<bar>Re c\<bar>"
  by (simp add: cmod_def)

lemma diag4_full_candidates:
  "full_candidates diag4 (1 / 1000000) = [(''II'', 3 / 2), (''ZI'', 1), (''IZ'', 5)]"
  by (simp add: full_candidates_def diag4_facts ceil_log2_4 identity_term_def
      identity_string_def upt_small Let_def z_string_def numeral_2_eq_2 z_candidates_def
      xy_candidates_def xy_candidates_row_def)

subsection \<open>What the scan takes\<close>

lemma z_loop_take:
  "z_loop H nq mt thr is acc =
     acc @ take (nat (max 1 (mt - int (length acc)))) (z_candidates H nq thr is)"
proof (induction "is" arbitrary: acc)
  case Nil
  show ?case by (simp add: z_candidates_def)
next
  case (Cons i "is")
  show ?case
  proof (cases "i < length H \<and> cmod (H ! i ! i) > thr")
    case False
    then have zc: "z_candidates H nq thr (i # is) = z_candidates H nq thr is"
      by (auto simp: z_candidates_def)
    from False Cons.IH[of acc] show ?thesis unfolding zc by auto
  next
    case True
    let ?t = "(z_string nq i, complex_of_real (Re (H ! i ! i)))"
    have zc: "z_candidates H nq thr (i # is) = ?t # z_candidates H nq thr is"
      using True by (simp add: z_candidates_def)
    show ?thesis
    proof (cases "int (length (acc @ [?t])) \<ge> mt")
      case stop: True
      then have "nat (max 1 (mt - int (length acc))) = Suc 0" by simp
      with stop True show ?thesis unfolding zc by (simp add: Let_def)
    next
      case False
      let ?d = "mt - int (length acc) - 1"
      have a: "nat (max 1 (mt - int (length acc))) = Suc (nat ?d)" using False by simp
      have b: "nat (max 1 (mt - int (length (acc @ [?t])))) = nat ?d" using False by simp
      have "z_loop H nq mt thr (i # is) acc = z_loop H nq mt thr is (acc @ [?t])"
        using False True by (simp add: Let_def)
      also have "\<dots> = (acc @ [?t]) @ take (nat ?d) (z_candidates H nq thr is)"
        unfolding b[symmetric] by (rule Cons.IH)
      also have "\<dots> = acc @ take (Suc (nat ?d)) (?t # z_candidates H nq thr is)" by simp
      finally show ?thesis unfolding zc a .
    qed
  qed
qed

lemma xy_inner_cut:
  "\<exists>k \<le> length js. xy_inner H nq mt thr i js acc = acc @ xy_candidates_row H nq thr i (take k js)
      \<and> (js \<noteq> [] \<longrightarrow> 1 \<le> k)
      \<and> (\<forall>k' \<in> {1..<k}. int (length (acc @ xy_candidates_row H nq thr i (take k' js))) < mt)
      \<and> (k < length js \<longrightarrow> mt \<le> int (length (acc @ xy_candidates_row H nq thr i (take k js))))"
proof (induction js arbitrary: acc)
  case Nil
  show ?case by (simp add: xy_candidates_row_def)
next
  case (Cons j js)
  let ?c = "i < length H \<and> j < length H \<and> cmod (H ! i ! j) > thr"
  let ?ts = "if ?c then xy_terms H nq thr i j else []"
  have row: "\<And>ks. xy_candidates_row H nq thr i (j # ks) = ?ts @ xy_candidates_row H nq thr i ks"
    by (simp add: xy_candidates_row_def)
  have one: "xy_candidates_row H nq thr i (take (Suc 0) (j # js)) = ?ts"
    by (simp add: xy_candidates_row_def)
  show ?case
  proof (cases "int (length (acc @ ?ts)) \<ge> mt")
    case True
    then have r: "xy_inner H nq mt thr i (j # js) acc = acc @ ?ts"
      by (simp only: xy_inner_step Let_def if_True)
    show ?thesis
    proof (intro exI[of _ "Suc 0"] conjI impI ballI)
      show "Suc 0 \<le> length (j # js)" by simp
      show "xy_inner H nq mt thr i (j # js) acc = acc @ xy_candidates_row H nq thr i (take (Suc 0) (j # js))"
        unfolding r one ..
      show "1 \<le> Suc 0" by simp
      show "int (length (acc @ xy_candidates_row H nq thr i (take k' (j # js)))) < mt"
        if "k' \<in> {1..<Suc 0}" for k' using that by simp
      show "mt \<le> int (length (acc @ xy_candidates_row H nq thr i (take (Suc 0) (j # js))))"
        unfolding one using True .
    qed
  next
    case False
    then have r: "xy_inner H nq mt thr i (j # js) acc = xy_inner H nq mt thr i js (acc @ ?ts)"
      by (simp only: xy_inner_step Let_def if_False)
    from Cons[of "acc @ ?ts"] obtain k where k: "k \<le> length js"
      "xy_inner H nq mt thr i js (acc @ ?ts) = (acc @ ?ts) @ xy_candidates_row H nq thr i (take k js)"
      "\<forall>k' \<in> {1..<k}. int (length ((acc @ ?ts) @ xy_candidates_row H nq thr i (take k' js))) < mt"
      "k < length js \<longrightarrow> mt \<le> int (length ((acc @ ?ts) @ xy_candidates_row H nq thr i (take k js)))"
      by blast
    have suc: "\<And>m. acc @ xy_candidates_row H nq thr i (take (Suc m) (j # js))
        = (acc @ ?ts) @ xy_candidates_row H nq thr i (take m js)"
      by (simp only: take_Suc_Cons row append_assoc)
    show ?thesis
    proof (intro exI[of _ "Suc k"] conjI impI ballI)
      show "Suc k \<le> length (j # js)" using k(1) by simp
      show "xy_inner H nq mt thr i (j # js) acc = acc @ xy_candidates_row H nq thr i (take (Suc k) (j # js))"
        unfolding r k(2) suc ..
      show "1 \<le> Suc k" by simp
      show "int (length (acc @ xy_candidates_row H nq thr i (take k' (j # js)))) < mt"
        if "k' \<in> {1..<Suc k}" for k'
      proof (cases k')
        case 0
        with that show ?thesis by simp
      next
        case (Suc m)
        show ?thesis
        proof (cases m)
          case 0
          with Suc False show ?thesis unfolding Suc suc by (simp add: xy_candidates_row_def)
        next
          case (Suc m')
          with \<open>k' = Suc m\<close> that have "m \<in> {1..<k}" by simp
          with k(3) show ?thesis unfolding \<open>k' = Suc m\<close> suc by blast
        qed
      qed
      show "mt \<le> int (length (acc @ xy_candidates_row H nq thr i (take (Suc k) (j # js))))"
        if "Suc k < length (j # js)"
        using that k(4) unfolding suc by simp
    qed
  qed
qed

lemma xy_outer_cut:
  assumes "distinct is"
  shows "\<exists>k. xy_outer H nq mt thr is acc =
        acc @ concat (map (\<lambda>i. xy_candidates_row H nq thr i (take (k i) [i + 1..<min nq (length H)])) is)
      \<and> (\<forall>p < length is.
            k (is ! p) \<le> length [is ! p + 1..<min nq (length H)]
          \<and> ([is ! p + 1..<min nq (length H)] \<noteq> [] \<longrightarrow> 1 \<le> k (is ! p))
          \<and> (\<forall>k' \<in> {1..<k (is ! p)}.
                int (length ((acc @ concat (map (\<lambda>i. xy_candidates_row H nq thr i
                                (take (k i) [i + 1..<min nq (length H)])) (take p is)))
                     @ xy_candidates_row H nq thr (is ! p) (take k' [is ! p + 1..<min nq (length H)]))) < mt)
          \<and> (k (is ! p) < length [is ! p + 1..<min nq (length H)] \<longrightarrow>
                mt \<le> int (length ((acc @ concat (map (\<lambda>i. xy_candidates_row H nq thr i
                                (take (k i) [i + 1..<min nq (length H)])) (take p is)))
                     @ xy_candidates_row H nq thr (is ! p)
                         (take (k (is ! p)) [is ! p + 1..<min nq (length H)])))))"
  using assms
proof (induction "is" arbitrary: acc)
  case Nil
  show ?case by simp
next
  case (Cons i "is")
  let ?js = "\<lambda>i. [i + 1..<min nq (length H)]"
  let ?row = "\<lambda>i m. xy_candidates_row H nq thr i (take m (?js i))"
  from xy_inner_cut[of "?js i" H nq mt thr i acc] obtain k0 where k0: "k0 \<le> length (?js i)"
    "xy_inner H nq mt thr i (?js i) acc = acc @ ?row i k0"
    "?js i \<noteq> [] \<longrightarrow> 1 \<le> k0"
    "\<forall>k' \<in> {1..<k0}. int (length (acc @ ?row i k')) < mt"
    "k0 < length (?js i) \<longrightarrow> mt \<le> int (length (acc @ ?row i k0))"
    by blast
  let ?acc' = "acc @ ?row i k0"
  from Cons.prems have d: "distinct is" and ni: "i \<notin> set is" by simp_all
  from Cons.IH[OF d, of ?acc'] obtain k where k:
    "xy_outer H nq mt thr is ?acc' = ?acc' @ concat (map (\<lambda>i. ?row i (k i)) is)"
    "\<forall>p < length is.
            k (is ! p) \<le> length (?js (is ! p))
          \<and> (?js (is ! p) \<noteq> [] \<longrightarrow> 1 \<le> k (is ! p))
          \<and> (\<forall>k' \<in> {1..<k (is ! p)}.
                int (length ((?acc' @ concat (map (\<lambda>i. ?row i (k i)) (take p is)))
                     @ ?row (is ! p) k')) < mt)
          \<and> (k (is ! p) < length (?js (is ! p)) \<longrightarrow>
                mt \<le> int (length ((?acc' @ concat (map (\<lambda>i. ?row i (k i)) (take p is)))
                     @ ?row (is ! p) (k (is ! p)))))"
    by blast
  let ?k = "k(i := k0)"
  have same: "map (\<lambda>i. ?row i (?k i)) xs = map (\<lambda>i. ?row i (k i)) xs" if "set xs \<subseteq> set is" for xs
    using ni that by (intro map_cong) auto
  have at: "?k (is ! p) = k (is ! p)" if "p < length is" for p
    using ni that by auto
  have sm: "map (\<lambda>i. ?row i (?k i)) is = map (\<lambda>i. ?row i (k i)) is"
    by (rule same) simp
  have out: "xy_outer H nq mt thr (i # is) acc =
      xy_outer H nq mt thr is (xy_inner H nq mt thr i (?js i) acc)"
    by simp
  have eq: "xy_outer H nq mt thr (i # is) acc = acc @ concat (map (\<lambda>i. ?row i (?k i)) (i # is))"
    unfolding out k0(2) k(1) by (simp only: list.map concat.simps sm fun_upd_same append_assoc)
  have props: "?k ((i # is) ! p) \<le> length (?js ((i # is) ! p))
          \<and> (?js ((i # is) ! p) \<noteq> [] \<longrightarrow> 1 \<le> ?k ((i # is) ! p))
          \<and> (\<forall>k' \<in> {1..<?k ((i # is) ! p)}.
                int (length ((acc @ concat (map (\<lambda>i. ?row i (?k i)) (take p (i # is))))
                     @ ?row ((i # is) ! p) k')) < mt)
          \<and> (?k ((i # is) ! p) < length (?js ((i # is) ! p)) \<longrightarrow>
                mt \<le> int (length ((acc @ concat (map (\<lambda>i. ?row i (?k i)) (take p (i # is))))
                     @ ?row ((i # is) ! p) (?k ((i # is) ! p)))))"
    if p: "p < length (i # is)" for p
  proof (cases p)
    case 0
    with k0 show ?thesis by simp
  next
    case (Suc q)
    with p have q: "q < length is" by simp
    have smq: "map (\<lambda>i. ?row i (?k i)) (take q is) = map (\<lambda>i. ?row i (k i)) (take q is)"
      by (rule same) (rule set_take_subset)
    have pre: "acc @ concat (map (\<lambda>i. ?row i (?k i)) (take p (i # is)))
        = ?acc' @ concat (map (\<lambda>i. ?row i (k i)) (take q is))"
      unfolding Suc
      by (simp only: take_Suc_Cons list.map concat.simps smq fun_upd_same append_assoc)
    have el: "(i # is) ! p = is ! q" unfolding Suc by simp
    from k(2) q show ?thesis unfolding pre el at[OF q] by blast
  qed
  from eq props show ?case by (intro exI[of _ ?k]) blast
qed

lemma accumulated_cut:
  "\<exists>k. (if int (length (identity_term H (ceil_log2 (length H)) thr @ z_scan H mt thr)) < mt
        then accumulated_terms H mt thr =
               identity_term H (ceil_log2 (length H)) thr @ z_scan H mt thr @
               xy_rows_upto H thr k (min (ceil_log2 (length H)) (length H - 1))
           \<and> scanned_rows H mt thr (identity_term H (ceil_log2 (length H)) thr @ z_scan H mt thr) k
        else accumulated_terms H mt thr =
               identity_term H (ceil_log2 (length H)) thr @ z_scan H mt thr)"
proof -
  let ?nq = "ceil_log2 (length H)"
  let ?t0 = "identity_term H ?nq thr"
  let ?m = "min ?nq (length H - 1)"
  let ?held = "?t0 @ z_scan H mt thr"
  have z: "z_loop H ?nq mt thr [0..<min ?nq (length H)] ?t0 = ?held"
    by (simp add: z_loop_take z_scan_def Let_def)
  show ?thesis
  proof (cases "int (length ?held) < mt")
    case True
    then have acc: "accumulated_terms H mt thr = xy_outer H ?nq mt thr [0..<?m] ?held"
      by (simp add: accumulated_terms_def Let_def z)
    from xy_outer_cut[of "[0..<?m]" H ?nq mt thr ?held] obtain k where k:
      "xy_outer H ?nq mt thr [0..<?m] ?held =
        ?held @ concat (map (\<lambda>i. xy_candidates_row H ?nq thr i (take (k i) [i + 1..<min ?nq (length H)])) [0..<?m])"
      "\<forall>p < length [0..<?m].
            k ([0..<?m] ! p) \<le> length [[0..<?m] ! p + 1..<min ?nq (length H)]
          \<and> ([[0..<?m] ! p + 1..<min ?nq (length H)] \<noteq> [] \<longrightarrow> 1 \<le> k ([0..<?m] ! p))
          \<and> (\<forall>k' \<in> {1..<k ([0..<?m] ! p)}.
                int (length ((?held @ concat (map (\<lambda>i. xy_candidates_row H ?nq thr i
                                (take (k i) [i + 1..<min ?nq (length H)])) (take p [0..<?m])))
                     @ xy_candidates_row H ?nq thr ([0..<?m] ! p) (take k' [[0..<?m] ! p + 1..<min ?nq (length H)]))) < mt)
          \<and> (k ([0..<?m] ! p) < length [[0..<?m] ! p + 1..<min ?nq (length H)] \<longrightarrow>
                mt \<le> int (length ((?held @ concat (map (\<lambda>i. xy_candidates_row H ?nq thr i
                                (take (k i) [i + 1..<min ?nq (length H)])) (take p [0..<?m])))
                     @ xy_candidates_row H ?nq thr ([0..<?m] ! p)
                         (take (k ([0..<?m] ! p)) [[0..<?m] ! p + 1..<min ?nq (length H)]))))"
      by auto
    have a: "accumulated_terms H mt thr = ?t0 @ z_scan H mt thr @ xy_rows_upto H thr k ?m"
      unfolding acc k(1) by (simp add: xy_rows_upto_def Let_def)
    have tk: "take p [0..<?m] = [0..<p]" if "p < ?m" for p
      using that by simp
    have "scanned_rows H mt thr ?held k"
      unfolding scanned_rows_def Let_def xy_rows_upto_def
    proof (intro allI impI)
      fix i assume i: "i < ?m"
      from i have il: "i < length [0..<?m]" by simp
      from i have nthi: "[0..<?m] ! i = i" by simp
      show
        "k i \<le> length [i + 1..<min ?nq (length H)] \<and>
         ([i + 1..<min ?nq (length H)] \<noteq> [] \<longrightarrow> 1 \<le> k i) \<and>
         (\<forall>k'\<in>{1..<k i}.
             int (length ((?held @ concat (map (\<lambda>i. xy_candidates_row H ?nq thr i
                     (take (k i) [i + 1..<min ?nq (length H)])) [0..<i])) @
                   xy_candidates_row H ?nq thr i (take k' [i + 1..<min ?nq (length H)]))) < mt) \<and>
         (k i < length [i + 1..<min ?nq (length H)] \<longrightarrow>
          mt \<le> int (length ((?held @ concat (map (\<lambda>i. xy_candidates_row H ?nq thr i
                     (take (k i) [i + 1..<min ?nq (length H)])) [0..<i])) @
                   xy_candidates_row H ?nq thr i (take (k i) [i + 1..<min ?nq (length H)]))))"
        by (rule k(2)[THEN spec, THEN mp, OF il, unfolded nthi tk[OF i]])
    qed
    with a True show ?thesis by (intro exI[of _ k]) simp
  next
    case False
    then have "accumulated_terms H mt thr = ?held"
      by (simp add: accumulated_terms_def Let_def z)
    with False show ?thesis by simp
  qed
qed

subsection \<open>Sorting and truncation\<close>

lemma stable_argsort_contract: "argsort_contract stable_argsort"
  by (simp add: argsort_contract_def stable_argsort_def)

lemma argsort_set:
  assumes "argsort_contract argsort"
  shows "set (sorted_indices argsort acc) = {0..<length acc}"
proof -
  from assms have "mset (sorted_indices argsort acc) = mset [0..<length acc]"
    by (simp add: argsort_contract_def sorted_indices_def)
  then have "set_mset (mset (sorted_indices argsort acc)) = set_mset (mset [0..<length acc])"
    by simp
  then show ?thesis by simp
qed

lemma set_py_take: "set (py_take k xs) \<subseteq> set xs"
  by (auto simp: py_take_def dest: in_set_takeD)

lemma kept_terms_returns:
  assumes "argsort_contract argsort"
  shows "kept_terms argsort H mt thr =
     Inr (map (\<lambda>i. accumulated_terms H mt thr ! i)
           (py_take mt (sorted_indices argsort (accumulated_terms H mt thr))))"
proof -
  let ?acc = "accumulated_terms H mt thr"
  have "\<forall>i \<in> set (py_take mt (sorted_indices argsort ?acc)). i < length ?acc"
    using set_py_take[of mt "sorted_indices argsort ?acc"] argsort_set[OF assms, of ?acc] by auto
  then show ?thesis by (simp add: kept_terms_def Let_def list_all_iff)
qed

lemma kept_subset:
  assumes "kept_terms argsort H mt thr = Inr kept"
  shows "set kept \<subseteq> set (accumulated_terms H mt thr)"
  using assms by (auto simp: kept_terms_def Let_def list_all_iff split: if_splits)

lemma compute_alt:
  assumes "H \<noteq> []" "argsort_contract argsort"
  shows "\<exists>kept. kept_terms argsort H mt thr = Inr kept
     \<and> compute_pauli_coefficients argsort H mt thr =
         Inr \<lparr> pauli_terms = map fst kept,
               pauli_coefficients = map (\<lambda>(s, c). Re c) kept,
               num_qubits = int (ceil_log2 (length H)),
               num_terms = length kept \<rparr>"
  using assms(1) kept_terms_returns[OF assms(2), of H mt thr]
  by (simp add: compute_pauli_coefficients_def and_then_def)

lemma sorted_terms_mset:
  assumes "argsort_contract argsort"
  shows "mset (map (\<lambda>i. acc ! i) (sorted_indices argsort acc)) = mset acc"
proof -
  from assms have "mset (sorted_indices argsort acc) = mset [0..<length acc]"
    by (simp add: argsort_contract_def sorted_indices_def)
  then have "mset (map (\<lambda>i. acc ! i) (sorted_indices argsort acc))
      = mset (map (\<lambda>i. acc ! i) [0..<length acc])"
    by (metis mset_map)
  then show ?thesis by (simp add: map_nth)
qed

lemma sorted_terms_descending:
  assumes "argsort_contract argsort"
  shows "descending (map (\<lambda>i. acc ! i) (sorted_indices argsort acc))"
proof -
  let ?idx = "sorted_indices argsort acc"
  let ?ks = "map (\<lambda>(s, c). - cmod c) acc"
  from assms have "sorted (map (\<lambda>i. ?ks ! i) ?idx)"
    by (simp add: argsort_contract_def sorted_indices_def)
  moreover have "map (\<lambda>i. ?ks ! i) ?idx = map (\<lambda>i. - cmod (snd (acc ! i))) ?idx"
    using argsort_set[OF assms, of acc] by (intro map_cong) (auto simp: case_prod_beta)
  ultimately have "sorted (map (\<lambda>i. - cmod (snd (acc ! i))) ?idx)" by simp
  then show ?thesis by (simp add: descending_def sorted_map sorted_wrt_map)
qed

lemma largest_members_take:
  assumes "mset srt = mset cands" "descending srt"
  shows "largest_members m cands (take m srt)"
proof -
  have split: "mset cands = mset (take m srt) + mset (drop m srt)"
    unfolding assms(1)[symmetric] by (metis append_take_drop_id mset_append)
  have "length srt = length cands" using assms(1) by (rule mset_eq_length)
  then have len: "length (take m srt) = min m (length cands)" by simp
  have sub: "mset (take m srt) \<subseteq># mset cands" unfolding split by simp
  have rest: "mset cands - mset (take m srt) = mset (drop m srt)" unfolding split by simp
  have desc: "descending (take m srt)"
    using assms(2) unfolding descending_def by (rule sorted_wrt_take)
  have top: "\<forall>x \<in> set (take m srt). \<forall>y \<in> set_mset (mset cands - mset (take m srt)).
      cmod (snd y) \<le> cmod (snd x)"
    unfolding rest using sorted_wrt_take_drop[OF assms(2)[unfolded descending_def]] by auto
  from desc len sub top show ?thesis unfolding largest_members_def by blast
qed

lemma kept_largest:
  assumes "argsort_contract argsort" "0 \<le> mt"
  shows "\<exists>kept. kept_terms argsort H mt thr = Inr kept
     \<and> largest_members (nat mt) (accumulated_terms H mt thr) kept"
proof -
  let ?acc = "accumulated_terms H mt thr"
  let ?srt = "map (\<lambda>i. ?acc ! i) (sorted_indices argsort ?acc)"
  have "kept_terms argsort H mt thr = Inr (take (nat mt) ?srt)"
    using assms(2) by (simp add: kept_terms_returns[OF assms(1)] py_take_def take_map)
  moreover have "largest_members (nat mt) ?acc (take (nat mt) ?srt)"
    by (rule largest_members_take[OF sorted_terms_mset[OF assms(1)] sorted_terms_descending[OF assms(1)]])
  ultimately show ?thesis by blast
qed

subsection \<open>Evaluation of the sort on the first matrix\<close>

lemma diag4_kept_1: "kept_terms stable_argsort diag4 1 (1 / 1000000) = Inr [(''II'', 3 / 2)]"
  by (simp add: kept_terms_def diag4_accumulated_1 py_take_def sorted_indices_def
      stable_argsort_def Let_def upt_small numeral_2_eq_2)

lemma diag4_kept_10:
  "kept_terms stable_argsort diag4 10 (1 / 1000000) = Inr [(''IZ'', 5), (''II'', 3 / 2), (''ZI'', 1)]"
  by (simp add: kept_terms_def diag4_accumulated_10 py_take_def sorted_indices_def
      stable_argsort_def Let_def upt_rec numeral_3_eq_3)

lemma diag4_result_1:
  "compute_pauli_coefficients stable_argsort diag4 1 (1 / 1000000) =
     Inr \<lparr> pauli_terms = [''II''], pauli_coefficients = [3 / 2], num_qubits = 2, num_terms = 1 \<rparr>"
  by (simp add: compute_pauli_coefficients_def diag4_kept_1 and_then_def ceil_log2_4 diag4_facts)

lemma diag4_result_10:
  "compute_pauli_coefficients stable_argsort diag4 10 (1 / 1000000) =
     Inr \<lparr> pauli_terms = [''IZ'', ''II'', ''ZI''], pauli_coefficients = [5, 3 / 2, 1],
           num_qubits = 2, num_terms = 3 \<rparr>"
  by (simp add: compute_pauli_coefficients_def diag4_kept_10 and_then_def ceil_log2_4 diag4_facts)

text \<open>
  No two magnitudes are equal in the candidates accumulated for \<open>max_terms = 1\<close>, so the
  result is the same for every \<open>argsort\<close> that meets the contract.
\<close>

lemma two_indices:
  assumes "mset xs = mset [0, Suc 0]"
  shows "xs = [0, Suc 0] \<or> xs = [Suc 0, 0]"
proof -
  have "length xs = length [0, Suc 0]" using assms by (rule mset_eq_length)
  then obtain a b where xs: "xs = [a, b]"
    by (cases xs; cases "tl xs") auto
  from assms show ?thesis unfolding xs by (auto simp: add_eq_conv_ex)
qed

lemma diag4_result_any_argsort:
  assumes "argsort_contract argsort"
  shows "compute_pauli_coefficients argsort diag4 1 (1 / 1000000) =
     Inr \<lparr> pauli_terms = [''II''], pauli_coefficients = [3 / 2], num_qubits = 2, num_terms = 1 \<rparr>"
proof -
  let ?ks = "[- (3 / 2), - 1] :: real list"
  have ks: "map (\<lambda>(s, c). - cmod c) [(''II'', 3 / 2), (''ZI'', 1)] = ?ks" by simp
  have upt: "[0..<length ?ks] = [0, Suc 0]" by (simp add: upt_rec)
  from assms have "mset (argsort ?ks) = mset [0..<length ?ks]"
    and srt: "sorted (map (\<lambda>i. ?ks ! i) (argsort ?ks))"
    unfolding argsort_contract_def by blast+
  then have "mset (argsort ?ks) = mset [0, Suc 0]" by (simp only: upt)
  from two_indices[OF this] srt have "argsort ?ks = [0, Suc 0]" by auto
  then have "kept_terms argsort diag4 1 (1 / 1000000) = Inr [(''II'', 3 / 2)]"
    by (simp add: kept_terms_def diag4_accumulated_1 py_take_def sorted_indices_def Let_def ks)
  then show ?thesis
    by (simp add: compute_pauli_coefficients_def and_then_def ceil_log2_4 diag4_facts)
qed

text \<open>
  C3, as stated, fails.  For \<open>H = diag(1, 5, 0, 0)\<close>, \<open>max_terms = 1\<close> and threshold
  \<open>1e-6\<close> the loop over the diagonal stops after the first Z term, so the candidate
  \<open>IZ\<close> with coefficient 5 is never generated: the code returns the identity term with
  coefficient 3/2, which is not the largest member of the full candidate set.  No two
  magnitudes are equal here, and the lemma \<open>diag4_result_any_argsort\<close> gives the same
  result for every \<open>argsort\<close> that meets the contract.
\<close>

theorem C3_early_stop_counterexample:
  "compute_pauli_coefficients stable_argsort diag4 1 (1 / 1000000)
     = Inr \<lparr> pauli_terms = [''II''], pauli_coefficients = [3 / 2], num_qubits = 2, num_terms = 1 \<rparr>
   \<and> full_candidates diag4 (1 / 1000000) = [(''II'', 3 / 2), (''ZI'', 1), (''IZ'', 5)]
   \<and> \<not> largest_members 1 (full_candidates diag4 (1 / 1000000)) [(''II'', 3 / 2)]"
proof -
  have "\<not> largest_members 1 [(''II'', 3 / 2), (''ZI'', 1), (''IZ'', 5)] [(''II'', 3 / 2)]"
    by (simp add: largest_members_def)
  then show ?thesis by (simp add: diag4_result_1 diag4_full_candidates)
qed

text \<open>
  C3, amended.  For every non-empty \<open>H\<close>, every \<open>max_terms \<ge> 0\<close> and every \<open>argsort\<close>
  that meets the contract, the function returns, and its decomposition holds the
  \<open>max_terms\<close> largest magnitudes, in descending order, of the candidates that the scan
  accumulated; which of several equal magnitudes is kept, and in which order, is left
  to \<open>argsort\<close>.  The scan accumulates the identity candidate, then the first
  \<open>max(1, max_terms - held)\<close> Z candidates, where \<open>held\<close> counts the identity
  candidate, and, only if fewer than \<open>max_terms\<close> terms are held by then, for every row
  \<open>i\<close> in turn the XX/YY candidates of the entries \<open>H[i, j]\<close>, \<open>j > i\<close>, up to and
  including the first entry at which \<open>max_terms\<close> or more terms are held; at least one
  entry of every row is read.  The accumulated candidates are a sub-list of the full
  candidate set.  When the full candidate set has at most \<open>max_terms\<close> members nothing
  is cut, and the result holds all of it in descending order.  For a matrix with a
  real diagonal, as a Hermitian one has, the returned real coefficients are in
  descending order of absolute value.
\<close>

theorem C3_decomposition_of_accumulated_terms:
  assumes "H \<noteq> []" "0 \<le> mt" "argsort_contract argsort"
  shows "\<exists>r kept k.
       compute_pauli_coefficients argsort H mt thr = Inr r
     \<and> pauli_terms r = map fst kept
     \<and> pauli_coefficients r = map (\<lambda>(s, c). Re c) kept
     \<and> num_terms r = length kept
     \<and> largest_members (nat mt) (accumulated_terms H mt thr) kept
     \<and> (if int (length (identity_term H (ceil_log2 (length H)) thr @ z_scan H mt thr)) < mt
        then accumulated_terms H mt thr =
               identity_term H (ceil_log2 (length H)) thr @ z_scan H mt thr @
               xy_rows_upto H thr k (min (ceil_log2 (length H)) (length H - 1))
           \<and> scanned_rows H mt thr (identity_term H (ceil_log2 (length H)) thr @ z_scan H mt thr) k
        else accumulated_terms H mt thr =
               identity_term H (ceil_log2 (length H)) thr @ z_scan H mt thr)
     \<and> subseq (accumulated_terms H mt thr) (full_candidates H thr)
     \<and> (int (length (full_candidates H thr)) \<le> mt \<longrightarrow>
          accumulated_terms H mt thr = full_candidates H thr
          \<and> largest_members (nat mt) (full_candidates H thr) kept)
     \<and> ((\<forall>i < length H. Im (H ! i ! i) = 0) \<longrightarrow>
          sorted_wrt (\<lambda>a b. \<bar>b\<bar> \<le> \<bar>a\<bar>) (pauli_coefficients r))"
proof -
  let ?acc = "accumulated_terms H mt thr"
  from kept_largest[OF assms(3,2), of H thr] obtain kept where
    kept: "kept_terms argsort H mt thr = Inr kept" and top: "largest_members (nat mt) ?acc kept"
    by blast
  let ?r = "\<lparr> pauli_terms = map fst kept,
             pauli_coefficients = map (\<lambda>(s, c). Re c) kept,
             num_qubits = int (ceil_log2 (length H)),
             num_terms = length kept \<rparr>"
  have ret: "compute_pauli_coefficients argsort H mt thr = Inr ?r"
    using assms(1) kept by (simp add: compute_pauli_coefficients_def and_then_def)
  from accumulated_cut[of H thr mt] obtain k where
    scan: "if int (length (identity_term H (ceil_log2 (length H)) thr @ z_scan H mt thr)) < mt
        then ?acc =
               identity_term H (ceil_log2 (length H)) thr @ z_scan H mt thr @
               xy_rows_upto H thr k (min (ceil_log2 (length H)) (length H - 1))
           \<and> scanned_rows H mt thr (identity_term H (ceil_log2 (length H)) thr @ z_scan H mt thr) k
        else ?acc =
               identity_term H (ceil_log2 (length H)) thr @ z_scan H mt thr"
    by blast
  have sub: "subseq ?acc (full_candidates H thr)" by (rule accumulated_subseq_full)
  have exact: "int (length (full_candidates H thr)) \<le> mt \<longrightarrow>
      ?acc = full_candidates H thr \<and> largest_members (nat mt) (full_candidates H thr) kept"
    using top accumulated_exact[of H thr mt] by auto
  have desc: "sorted_wrt (\<lambda>a b. cmod (snd b) \<le> cmod (snd a)) kept"
    using top by (simp add: largest_members_def descending_def)
  have herm: "sorted_wrt (\<lambda>a b. \<bar>b\<bar> \<le> \<bar>a\<bar>) (map (\<lambda>(s, c). Re c) kept)"
    if re: "\<forall>i < length H. Im (H ! i ! i) = 0"
  proof -
    have "cmod (snd t) = \<bar>Re (snd t)\<bar>" if "t \<in> set kept" for t
      using accumulated_real[OF re, of t mt thr] kept_subset[OF kept] that
      by (auto intro: cmod_real)
    then have "sorted_wrt (\<lambda>a b. \<bar>Re (snd b)\<bar> \<le> \<bar>Re (snd a)\<bar>) kept"
      using sorted_wrt_mono_rel[of kept "\<lambda>a b. cmod (snd b) \<le> cmod (snd a)"
          "\<lambda>a b. \<bar>Re (snd b)\<bar> \<le> \<bar>Re (snd a)\<bar>"] desc by simp
    then show ?thesis by (simp add: sorted_wrt_map case_prod_beta)
  qed
  have "pauli_terms ?r = map fst kept" by simp
  moreover have "pauli_coefficients ?r = map (\<lambda>(s, c). Re c) kept" by simp
  moreover have "num_terms ?r = length kept" by simp
  moreover have "(\<forall>i < length H. Im (H ! i ! i) = 0) \<longrightarrow>
          sorted_wrt (\<lambda>a b. \<bar>b\<bar> \<le> \<bar>a\<bar>) (pauli_coefficients ?r)"
    using herm by simp
  ultimately show ?thesis
    using ret top scan sub exact by blast
qed

theorem C3_decomposition_of_accumulated_terms_witness:
  "diag4 \<noteq> [] \<and> (0::int) \<le> 10 \<and> argsort_contract stable_argsort
   \<and> int (length (full_candidates diag4 (1 / 1000000))) \<le> 10
   \<and> (\<exists>r kept. compute_pauli_coefficients stable_argsort diag4 10 (1 / 1000000) = Inr r
        \<and> pauli_terms r = map fst kept
        \<and> accumulated_terms diag4 10 (1 / 1000000) = full_candidates diag4 (1 / 1000000)
        \<and> largest_members 10 (full_candidates diag4 (1 / 1000000)) kept
        \<and> pauli_terms r = [''IZ'', ''II'', ''ZI''] \<and> pauli_coefficients r = [5, 3 / 2, 1])"
proof -
  have ne: "diag4 \<noteq> []" by (simp add: diag4_def)
  have len: "int (length (full_candidates diag4 (1 / 1000000))) \<le> 10"
    by (simp add: diag4_full_candidates)
  from C3_decomposition_of_accumulated_terms[OF ne _ stable_argsort_contract, of 10 "1 / 1000000"]
  obtain r kept where r: "compute_pauli_coefficients stable_argsort diag4 10 (1 / 1000000) = Inr r"
    "pauli_terms r = map fst kept"
    "int (length (full_candidates diag4 (1 / 1000000))) \<le> 10 \<longrightarrow>
          accumulated_terms diag4 10 (1 / 1000000) = full_candidates diag4 (1 / 1000000)
          \<and> largest_members (nat 10) (full_candidates diag4 (1 / 1000000)) kept"
    by auto
  from r(1) have "pauli_terms r = [''IZ'', ''II'', ''ZI'']" "pauli_coefficients r = [5, 3 / 2, 1]"
    by (auto simp: diag4_result_10)
  with r len ne stable_argsort_contract show ?thesis by auto
qed

text \<open>
  C4, as stated, fails.  For \<open>H = diag(3, 0)\<close> and threshold 2 the trace 3 is above the
  threshold, so the identity term is a candidate, while its coefficient 3/2 is not above
  the threshold.
\<close>

theorem C4_identity_counterexample:
  "(identity_string (ceil_log2 (length upper2)), trace_of upper2 / of_nat (length upper2))
       \<in> set (accumulated_terms upper2 100 2)
   \<and> \<not> cmod (trace_of upper2 / of_nat (length upper2)) > 2"
  by (simp add: upper2_accumulated upper2_facts ceil_log2_2 identity_string_def)

text \<open>
  C4, amended.  The all-identity term has coefficient \<open>trace(H)/n\<close> and is among the
  candidates if and only if \<open>|trace(H)| > threshold\<close>: the test is on the trace, not on
  the coefficient.
\<close>

theorem C4_identity_term:
  "((identity_string (ceil_log2 (length H)), c) \<in> set (accumulated_terms H mt thr))
     = (cmod (trace_of H) > thr \<and> c = trace_of H / of_nat (length H))"
proof -
  let ?nq = "ceil_log2 (length H)"
  from accumulated_shape[of H mt thr] obtain ys where ys:
    "accumulated_terms H mt thr = identity_term H ?nq thr @ ys"
    "\<forall>t \<in> set ys. proper_term ?nq t" by blast
  have "(identity_string ?nq, c) \<notin> set ys"
    using ys(2) by (auto simp: proper_term_def)
  then show ?thesis
    by (auto simp: ys(1) identity_term_def)
qed

text \<open>
  C5.  For every non-empty \<open>H\<close> the function returns a decomposition, given an
  \<open>argsort\<close> that meets the contract; and whatever \<open>argsort\<close> does, a decomposition
  that is returned has the qubit count \<open>ceil(log2(n))\<close>, and every operator string in
  it has exactly that length and is drawn from the alphabet I, X, Y, Z.
\<close>

theorem C5_operator_strings:
  assumes "H \<noteq> []"
  shows "(argsort_contract argsort \<longrightarrow> (\<exists>r. compute_pauli_coefficients argsort H mt thr = Inr r))
     \<and> (\<forall>r. compute_pauli_coefficients argsort H mt thr = Inr r \<longrightarrow>
          num_qubits r = \<lceil>log 2 (real (length H))\<rceil>
          \<and> (\<forall>t \<in> set (pauli_terms r).
                int (length t) = num_qubits r
                \<and> set t \<subseteq> {CHR ''I'', CHR ''X'', CHR ''Y'', CHR ''Z''}))"
proof (intro conjI impI allI)
  assume "argsort_contract argsort"
  from compute_alt[OF assms this, of mt thr]
  show "\<exists>r. compute_pauli_coefficients argsort H mt thr = Inr r" by blast
next
  fix r
  assume r: "compute_pauli_coefficients argsort H mt thr = Inr r"
  have n1: "1 \<le> length H" using assms by (cases H) simp_all
  from r assms obtain kept where kept: "kept_terms argsort H mt thr = Inr kept"
    and fields: "pauli_terms r = map fst kept" "num_qubits r = int (ceil_log2 (length H))"
    by (auto simp: compute_pauli_coefficients_def and_then_def split: sum.splits)
  show "num_qubits r = \<lceil>log 2 (real (length H))\<rceil>"
    by (simp add: fields ceil_log2_real[OF n1, symmetric])
  show "\<forall>t \<in> set (pauli_terms r).
                int (length t) = num_qubits r
                \<and> set t \<subseteq> {CHR ''I'', CHR ''X'', CHR ''Y'', CHR ''Z''}"
  proof
    fix t
    assume "t \<in> set (pauli_terms r)"
    then obtain p where "p \<in> set kept" "t = fst p" unfolding fields by auto
    with kept_subset[OF kept] have "p \<in> set (accumulated_terms H mt thr)" by auto
    from accumulated_wf[OF this] \<open>t = fst p\<close>
    show "int (length t) = num_qubits r
                \<and> set t \<subseteq> {CHR ''I'', CHR ''X'', CHR ''Y'', CHR ''Z''}"
      by (simp add: fields pauli_alphabet_def)
  qed
qed

theorem C5_operator_strings_witness:
  "diag4 \<noteq> [] \<and> argsort_contract stable_argsort
   \<and> (\<exists>r. compute_pauli_coefficients stable_argsort diag4 10 (1 / 1000000) = Inr r
        \<and> pauli_terms r = [''IZ'', ''II'', ''ZI''] \<and> num_qubits r = 2
        \<and> num_qubits r = \<lceil>log 2 (real (length diag4))\<rceil>)"
proof -
  have ne: "diag4 \<noteq> []" by (simp add: diag4_def)
  note strings = C5_operator_strings[OF ne, of stable_argsort 10 "1 / 1000000"]
  from strings[THEN conjunct1] stable_argsort_contract obtain r where
    r: "compute_pauli_coefficients stable_argsort diag4 10 (1 / 1000000) = Inr r"
    by blast
  with strings[THEN conjunct2] have q: "num_qubits r = \<lceil>log 2 (real (length diag4))\<rceil>"
    by blast
  from r have "r = \<lparr> pauli_terms = [''IZ'', ''II'', ''ZI''], pauli_coefficients = [5, 3 / 2, 1],
      num_qubits = 2, num_terms = 3 \<rparr>"
    by (simp add: diag4_result_10)
  with r q ne stable_argsort_contract show ?thesis by simp
qed

section \<open>Properties of compute_H\<close>

lemma length_py_take:
  "k < 0 \<Longrightarrow> int (length (py_take k xs)) = max 0 (int (length xs) + k)"
  "0 \<le> k \<Longrightarrow> int (length (py_take k xs)) = min k (int (length xs))"
  by (auto simp: py_take_def)

lemma matmul_length: "matmul A B = Inr C \<Longrightarrow> length C = length A"
  by (auto simp: matmul_def split: if_splits)

lemma length_leading_block: "length (leading_block r A) = min r (length A)"
  by (simp add: leading_block_def)

lemma py_take_clamped:
  assumes "length xs \<le> n"
  shows "int (length (py_take (int n - 2) xs)) \<le> max 0 (int n - 2)"
  using assms by (cases "int n - 2 < 0") (simp_all add: length_py_take)

lemma solve_eigenproblem_length:
  assumes c: "eigh_contract la" "eigsh_contract la" "shape_contract la"
    and n: "length (toarray K) = n" "length (toarray M) = n"
    and r: "solve_eigenproblem la K M n (int n - 2) = Inr vs"
  shows "int (length vs) \<le> max 0 (int n - 2)"
proof -
  have eighD: "\<And>A ws. linalg_eigh la A = Inr ws \<Longrightarrow> length ws = length A"
    using c(1) by (simp add: eigh_contract_def)
  have invD: "\<And>A B. linalg_inv la A = Inr B \<Longrightarrow> length B = length A"
    and solveD: "\<And>M' K' A. linalg_solve la M' K' = Inr A \<Longrightarrow> length A = length K'"
    using c(3) by (auto simp: shape_contract_def)
  show ?thesis
  proof (cases "issparse K \<and> issparse M")
    case True
    show ?thesis
    proof (cases "eigsh la (toarray K) (int n - 2) (toarray M)")
      case (Inr ws)
      with True r have "vs = ws" by (simp add: solve_eigenproblem_def)
      moreover from c(2) Inr have "int (length ws) = int n - 2"
        unfolding eigsh_contract_def by blast
      ultimately show ?thesis by simp
    next
      case (Inl e)
      with True r obtain A ws where
        A: "linalg_solve la (leading_block (min 20 n) (toarray M)) (leading_block (min 20 n) (toarray K)) = Inr A"
        and ws: "linalg_eigh la A = Inr ws" and vs: "vs = py_take (int n - 2) ws"
        by (auto simp: solve_eigenproblem_def and_then_def Let_def split: sum.splits)
      have "length ws \<le> n"
        using eighD[OF ws] solveD[OF A] n by (simp add: length_leading_block)
      then show ?thesis unfolding vs by (rule py_take_clamped)
    qed
  next
    case dense: False
    show ?thesis
    proof (cases "n \<le> 1000")
      case True
      with dense r obtain Mi A ws where
        Mi: "linalg_inv la (toarray M) = Inr Mi" and A: "matmul Mi (toarray K) = Inr A"
        and ws: "linalg_eigh la A = Inr ws" and vs: "vs = py_take (int n - 2) ws"
        by (auto simp: solve_eigenproblem_def and_then_def split: sum.splits)
      have "length ws \<le> n"
        using eighD[OF ws] matmul_length[OF A] invD[OF Mi] n by simp
      then show ?thesis unfolding vs by (rule py_take_clamped)
    next
      case False
      with dense r obtain Mi A ws where
        Mi: "linalg_inv la (leading_block (min 100 n) (toarray M)) = Inr Mi"
        and A: "matmul Mi (leading_block (min 100 n) (toarray K)) = Inr A"
        and ws: "linalg_eigh la A = Inr ws" and vs: "vs = py_take (int n - 2) ws"
        by (auto simp: solve_eigenproblem_def and_then_def Let_def split: sum.splits)
      have "length ws \<le> n"
        using eighD[OF ws] matmul_length[OF A] invD[OF Mi] n by (simp add: length_leading_block)
      then show ?thesis unfolding vs by (rule py_take_clamped)
    qed
  qed
qed

lemma compute_H_clamps:
  assumes c: "eigh_contract la" "eigsh_contract la" "shape_contract la"
    and n: "length (toarray K) = n" "length (toarray M) = n"
    and big: "int n - 2 < modes"
    and r: "compute_H la K M modes method = Inr res"
  shows "3 \<le> n \<and> int (length (eigenvalues res)) \<le> int n - 2
         \<and> num_modes res = length (eigenvalues res) \<and> num_dofs res = n"
proof -
  have k: "min modes (int n - 2) = int n - 2" using big by simp
  from r obtain vs where vs: "solve_eigenproblem la K M n (int n - 2) = Inr vs"
    and ne: "vs \<noteq> []" and res: "eigenvalues res = vs" "num_modes res = length vs" "num_dofs res = n"
    by (auto simp: compute_H_def n k and_then_def Let_def split: sum.splits if_splits)
  have "int (length vs) \<le> max 0 (int n - 2)"
    by (rule solve_eigenproblem_length[OF c n vs])
  moreover have "1 \<le> int (length vs)" using ne by (cases vs) simp_all
  ultimately show ?thesis using res by auto
qed

lemma compute_H_small_fails:
  assumes c: "eigh_contract la" "eigsh_contract la" "shape_contract la"
    and n: "length (toarray K) = n" "length (toarray M) = n"
    and big: "int n - 2 < modes" and small: "n \<le> 2"
  shows "\<exists>e. compute_H la K M modes method = Inl e"
proof (cases "compute_H la K M modes method")
  case (Inl e)
  then show ?thesis by blast
next
  case (Inr res)
  from compute_H_clamps[OF c n big Inr] small show ?thesis by simp
qed

lemma diagonal_linalg_contracts:
  "eigh_contract diagonal_linalg" "eigsh_contract diagonal_linalg" "shape_contract diagonal_linalg"
  by (auto simp: eigh_contract_def eigsh_contract_def shape_contract_def diagonal_linalg_def
      diagonal_of_def np_diag_def split: if_splits)

lemma identity2_facts:
  "length identity2 = 2" "diagonal_of identity2 = [1, 1]"
  "np_diag [1, 1] = identity2" "matmul identity2 identity2 = Inr identity2"
  by (simp_all add: identity2_def diagonal_of_def np_diag_def matmul_def upt_small)

lemma identity4_facts:
  "length identity4 = 4" "diagonal_of identity4 = [1, 1, 1, 1]"
  "np_diag [1, 1, 1, 1] = identity4" "matmul identity4 identity4 = Inr identity4"
  by (simp_all add: identity4_def diagonal_of_def np_diag_def matmul_def upt_small)

text \<open>
  C10 at two degrees of freedom.  For \<open>K = M\<close> the 2 by 2 identity and the default
  request of 10 modes the clamp yields \<open>min(10, 0) = 0\<close> modes, the eigenvalue array is
  empty and \<open>compute_H\<close> raises \<open>IndexError\<close>; at four degrees of freedom the same call
  returns the \<open>n - 2 = 2\<close> eigenvalues.  The lemmas \<open>compute_H_clamps\<close> and
  \<open>compute_H_small_fails\<close> above give the general picture: a call with
  \<open>num_modes > n - 2\<close> that returns has \<open>n \<ge> 3\<close> and at most \<open>n - 2\<close> eigenvalues, and
  no such call returns for \<open>n \<le> 2\<close>.
\<close>

theorem C10_two_dof_index_error:
  "compute_H diagonal_linalg (NDArray identity2) (NDArray identity2) 10 ''standard'' = Inl IndexError
   \<and> compute_H diagonal_linalg (NDArray identity4) (NDArray identity4) 10 ''standard'' =
     Inr \<lparr> hamiltonian = NDArray identity2, eigenvalues = [1, 1], num_dofs = 4, num_modes = 2 \<rparr>"
  by (simp add: compute_H_def solve_eigenproblem_def and_then_def diagonal_linalg_def
        identity2_facts identity4_facts py_take_def build_H_def)

section \<open>Properties of compute_hamiltonian\<close>

text \<open>
  The padding of lines 46 to 52 is right on a square array: the result has the side
  \<open>2^ceil(log2 n)\<close>, which is at least \<open>n\<close>, equals the array in its leading block and
  is zero elsewhere.
\<close>

lemma assign_leading_zeros:
  assumes "length A < p" "square A" "i < p" "j < p"
  shows "length (assign_leading (replicate p (replicate p 0)) A) = p"
    and "length (assign_leading (replicate p (replicate p 0)) A ! i) = p"
    and "assign_leading (replicate p (replicate p 0)) A ! i ! j =
           (if i < length A \<and> j < length A then A ! i ! j else 0)"
proof -
  have row: "i < length A \<Longrightarrow> length (A ! i) = length A"
    using assms(2) by (simp add: square_def list_all_length)
  show "length (assign_leading (replicate p (replicate p 0)) A) = p"
    by (simp add: assign_leading_def)
  show "length (assign_leading (replicate p (replicate p 0)) A ! i) = p"
    using assms(1,3) row by (simp add: assign_leading_def)
  show "assign_leading (replicate p (replicate p 0)) A ! i ! j =
           (if i < length A \<and> j < length A then A ! i ! j else 0)"
    using assms(1,3,4) row by (simp add: assign_leading_def nth_append)
qed

lemma pad_square_array:
  assumes "A \<noteq> []" "square A" "allocates (2 ^ ceil_log2 (length A))"
  shows "\<exists>P. pad_to_power_of_two allocates (ArrayValue A) = Inr (length A, ArrayValue P)
     \<and> length P = 2 ^ ceil_log2 (length A) \<and> length A \<le> length P
     \<and> floor_log2 (length P) = ceil_log2 (length A)
     \<and> (\<forall>i<length P. length (P ! i) = length P
          \<and> (\<forall>j<length P. P ! i ! j = (if i < length A \<and> j < length A then A ! i ! j else 0)))"
proof -
  let ?n = "length A" and ?p = "2 ^ ceil_log2 (length A) :: nat"
  have n: "1 \<le> ?n" using assms(1) by (cases A) simp_all
  have le: "?n \<le> ?p" using ceil_log2_bounds[OF n] by simp
  show ?thesis
  proof (cases "?n = ?p")
    case True
    have "pad_to_power_of_two allocates (ArrayValue A) = Inr (?n, ArrayValue A)"
      using assms(1) True by (simp add: pad_to_power_of_two_def shape0_def and_then_def Let_def)
    moreover have "\<forall>i<?n. length (A ! i) = ?n"
      using assms(2) by (simp add: square_def list_all_length)
    moreover have "floor_log2 ?n = ceil_log2 ?n"
      using floor_log2_power[of "ceil_log2 ?n"] True by simp
    ultimately show ?thesis using True le by auto
  next
    case False
    with le have lt: "?n < ?p" by simp
    let ?P = "assign_leading (replicate ?p (replicate ?p 0)) A"
    have sq: "list_all (\<lambda>row. length row = ?n) A" using assms(2) by (simp add: square_def)
    have "pad_to_power_of_two allocates (ArrayValue A) = Inr (?n, ArrayValue ?P)"
      using assms(1) False assms(3) sq
      by (simp add: pad_to_power_of_two_def shape0_def and_then_def Let_def np_zeros_def
          assign_block_def)
    moreover have "length ?P = ?p" by (simp add: assign_leading_def)
    moreover have "floor_log2 ?p = ceil_log2 ?n" by (rule floor_log2_power)
    moreover have "\<forall>i<?p. length (?P ! i) = ?p
          \<and> (\<forall>j<?p. ?P ! i ! j = (if i < ?n \<and> j < ?n then A ! i ! j else 0))"
      using assign_leading_zeros[OF lt assms(2)] by blast
    ultimately show ?thesis using le by auto
  qed
qed

text \<open>
  The padding never sees an array.  \<open>compute_H\<close> hands over a dictionary, on which
  \<open>H.shape\<close> raises \<open>AttributeError\<close>; and whatever \<open>H\<close> is, the call of line 63 raises
  \<open>TypeError\<close> if it is reached.  So \<open>compute_hamiltonian\<close> returns on no input.
\<close>

lemma pad_dictionary: "pad_to_power_of_two allocates (DictValue d) = Inl AttributeError"
  by (simp add: pad_to_power_of_two_def shape0_def and_then_def)

lemma compute_hamiltonian_raises: "\<exists>e. compute_hamiltonian la allocates mr mpt = Inl e"
  by (simp add: compute_hamiltonian_def and_then_def subscript_def pad_dictionary
      split: option.split sum.split)

lemma compute_hamiltonian_attribute_error:
  assumes "get_stiffness_matrix mr = Some K" "get_mass_matrix mr = Some M"
    "compute_H la M K 10 ''standard'' = Inr d"
  shows "compute_hamiltonian la allocates mr mpt = Inl AttributeError"
  using assms by (simp add: compute_hamiltonian_def and_then_def subscript_def pad_dictionary)

lemma compute_hamiltonian_reraises:
  assumes "get_stiffness_matrix mr = Some K" "get_mass_matrix mr = Some M"
    "compute_H la M K 10 ''standard'' = Inl e"
  shows "compute_hamiltonian la allocates mr mpt = Inl e"
  using assms by (simp add: compute_hamiltonian_def and_then_def subscript_def)

lemma identity3_facts:
  "length identity3 = 3" "diagonal_of identity3 = [1, 1, 1]"
  "np_diag [1, 1, 1] = identity3" "matmul identity3 identity3 = Inr identity3"
  "np_diag [1] = [[1]]"
  by (simp_all add: identity3_def diagonal_of_def np_diag_def matmul_def upt_rec)

lemma zero4_facts: "length zero4 = 4" "diagonal_of zero4 = [0, 0, 0, 0]"
  by (simp_all add: zero4_def diagonal_of_def upt_small)

lemma compute_H_identity3:
  "compute_H diagonal_linalg (NDArray identity3) (NDArray identity3) 10 ''standard'' =
     Inr \<lparr> hamiltonian = NDArray [[1]], eigenvalues = [1], num_dofs = 3, num_modes = 1 \<rparr>"
  by (simp add: compute_H_def solve_eigenproblem_def and_then_def diagonal_linalg_def
      identity3_facts py_take_def build_H_def)

lemma compute_H_identity4:
  "compute_H diagonal_linalg (NDArray identity4) (NDArray identity4) 10 ''standard'' =
     Inr \<lparr> hamiltonian = NDArray identity2, eigenvalues = [1, 1], num_dofs = 4, num_modes = 2 \<rparr>"
  by (simp add: compute_H_def solve_eigenproblem_def and_then_def diagonal_linalg_def
      identity4_facts py_take_def build_H_def identity2_facts)

lemma compute_H_singular:
  "compute_H diagonal_linalg (NDArray identity4) (NDArray zero4) 10 ''standard'' = Inl LibraryError"
  by (simp add: compute_H_def solve_eigenproblem_def and_then_def diagonal_linalg_def
      identity4_facts zero4_facts)

text \<open>
  C1.  No Hamiltonian is returned, padded or not: \<open>compute_hamiltonian\<close> returns on no
  input.  For stiffness and mass matrix the identity of side 3, \<open>compute_H\<close> returns
  its dictionary, whose matrix has side 1, and \<open>H.shape\<close> on the dictionary raises
  \<open>AttributeError\<close> before anything is padded.
\<close>

theorem C1_no_hamiltonian_returned:
  "compute_hamiltonian la allocates mr mpt \<noteq> Inr r
   \<and> compute_H diagonal_linalg (NDArray identity3) (NDArray identity3) 10 ''standard'' =
       Inr \<lparr> hamiltonian = NDArray [[1]], eigenvalues = [1], num_dofs = 3, num_modes = 1 \<rparr>
   \<and> compute_hamiltonian diagonal_linalg (\<lambda>p. True) identity3_matrices 100 = Inl AttributeError"
proof -
  have "compute_hamiltonian la allocates mr mpt \<noteq> Inr r"
    using compute_hamiltonian_raises[of la allocates mr mpt] by auto
  moreover have "compute_hamiltonian diagonal_linalg (\<lambda>p. True) identity3_matrices 100 = Inl AttributeError"
    by (rule compute_hamiltonian_attribute_error[OF _ _ compute_H_identity3])
      (simp_all add: identity3_matrices_def)
  ultimately show ?thesis using compute_H_identity3 by simp
qed

text \<open>
  C2.  \<open>compute_hamiltonian\<close> raises on every input, also far below the limit of 20
  qubits, and the error is not the capacity error.  With the identity of side 4 for
  both matrices \<open>compute_H\<close> returns a Hamiltonian of side 2, which needs 1 qubit, and
  \<open>H.shape\<close> on its dictionary raises \<open>AttributeError\<close>; with a singular stiffness
  matrix of side 4, which \<open>compute_H\<close> receives in the place of the mass matrix and
  inverts, the error of the solver is re-raised.
\<close>

theorem C2_raises_below_the_limit:
  "(\<exists>e. compute_hamiltonian la allocates mr mpt = Inl e)
   \<and> (\<exists>d. compute_H diagonal_linalg (NDArray identity4) (NDArray identity4) 10 ''standard'' = Inr d
         \<and> hamiltonian d = NDArray identity2
         \<and> int (ceil_log2 (length identity2)) \<le> max_qubits)
   \<and> compute_hamiltonian diagonal_linalg (\<lambda>p. True) identity4_matrices 100 = Inl AttributeError
   \<and> compute_hamiltonian diagonal_linalg (\<lambda>p. True) singular_matrices 100 = Inl LibraryError"
proof -
  have "compute_hamiltonian diagonal_linalg (\<lambda>p. True) identity4_matrices 100 = Inl AttributeError"
    by (rule compute_hamiltonian_attribute_error[OF _ _ compute_H_identity4])
      (simp_all add: identity4_matrices_def)
  moreover have "compute_hamiltonian diagonal_linalg (\<lambda>p. True) singular_matrices 100 = Inl LibraryError"
    by (rule compute_hamiltonian_reraises[OF _ _ compute_H_singular])
      (simp_all add: singular_matrices_def)
  moreover have "int (ceil_log2 (length identity2)) \<le> max_qubits"
    by (simp add: identity2_facts ceil_log2_2 max_qubits_def)
  ultimately show ?thesis
    using compute_hamiltonian_raises[of la allocates mr mpt] compute_H_identity4 by simp
qed

section \<open>Properties of the circuit synthesizer\<close>











lemma trotter_loop_all_appended:
  assumes "PauliEvolutionGate b hop dt = Inr g" "appended_chain b g (py_range nq) cs"
    "length cs = Suc n"
  shows "trotter_loop b hop dt nq n (hd cs) = last cs"
  using assms(2,3)
proof (induction n arbitrary: cs)
  case 0
  then obtain c where "cs = [c]" by (cases cs) auto
  then show ?case by simp
next
  case (Suc n)
  from Suc.prems(2) obtain c c' rest' where cs: "cs = c # c' # rest'"
    by (cases cs; cases "tl cs") auto
  have step: "append_gate b c g (py_range nq) = Inr c'"
    using Suc.prems(1) unfolding appended_chain_def cs
    by (metis length_Cons nth_Cons_0 nth_Cons_Suc zero_less_Suc Suc_less_eq)
  have chain: "appended_chain b g (py_range nq) (c' # rest')"
    using Suc.prems(1) unfolding appended_chain_def cs
    by (metis Suc_less_eq length_Cons nth_Cons_Suc)
  have "trotter_loop b hop dt nq n (hd (c' # rest')) = last (c' # rest')"
    using Suc.IH[OF chain] Suc.prems(2) cs by simp
  with step cs assms(1) show ?case by simp
qed







subsection \<open>Zero Trotter steps\<close>










section \<open>Properties of the mock results\<close>

text \<open>
  C7, as stated, for the service's mock simulation: with one Pauli term, one Trotter
  step and two qubits the claim's formulas give 5 gates and depth 1, the service
  reports 6 gates and depth 3.
\<close>

theorem C7_mock_simulation_counterexample:
  "gate_count (mock_simulation 2 1 (Some 1)) \<noteq> 1 * 3 * 1 + 2
   \<and> circuit_depth (mock_simulation 2 1 (Some 1)) \<noteq> 1 * 1
   \<and> gate_count (mock_simulation 2 1 (Some 1)) = 6
   \<and> circuit_depth (mock_simulation 2 1 (Some 1)) = 3"
  by (simp add: mock_simulation_def)

text \<open>
  C7, amended: the formulas of the claim are those of the circuit synthesizer's mock
  result, \<open>_create_mock_circuit_result\<close>, for all arguments; the service's
  \<open>_mock_simulation\<close> reports depth \<open>trotter_steps \<times> terms \<times> 3\<close> and
  gate count \<open>depth \<times> qubit_count\<close>.
\<close>

theorem C7_mock_metrics:
  "num_gates (circuit_info (create_mock_circuit_result nq nterms steps :: 'c sim_result))
     = nterms * 3 * steps + nq
   \<and> depth (circuit_info (create_mock_circuit_result nq nterms steps :: 'c sim_result))
     = steps * nterms
   \<and> circuit_depth (mock_simulation q n (Some steps)) = steps * int n * 3
   \<and> gate_count (mock_simulation q n (Some steps)) = steps * int n * 3 * q"
  by (simp add: create_mock_circuit_result_def mock_simulation_def Let_def)

section \<open>Properties of the amplitude estimate\<close>














end
